theory Spec2Isabelle
  imports Main
begin

section \<open>Strings\<close>

text \<open>
  Strings are lists of characters. \<open>startsWith\<close> and \<open>includes_str\<close> are the string
  methods \<^verbatim>\<open>startsWith\<close> and \<^verbatim>\<open>includes\<close> that \<^verbatim>\<open>IssueFSM.ts\<close> calls;
  \<open>toLowerCase\<close> lowers the letters \<open>A\<close> to \<open>Z\<close> and leaves every other character as
  it is.
\<close>

fun startsWith :: "string \<Rightarrow> string \<Rightarrow> bool" where
  "startsWith s [] = True"
| "startsWith [] (p # ps) = False"
| "startsWith (c # cs) (p # ps) = (c = p \<and> startsWith cs ps)"

fun includes_str :: "string \<Rightarrow> string \<Rightarrow> bool" where
  "includes_str [] k = (k = [])"
| "includes_str (c # cs) k = (startsWith (c # cs) k \<or> includes_str cs k)"

definition lower_char :: "char \<Rightarrow> char" where
  "lower_char c =
     (case map_of (zip ''ABCDEFGHIJKLMNOPQRSTUVWXYZ'' ''abcdefghijklmnopqrstuvwxyz'') c of
        Some l \<Rightarrow> l
      | None \<Rightarrow> c)"

definition toLowerCase :: "string \<Rightarrow> string" where
  "toLowerCase s = map lower_char s"

section \<open>The lifecycle state machine (\<^verbatim>\<open>src/state-machine/IssueFSM.ts\<close>)\<close>

datatype IssueState = New | Pending | InProgress | Review | Done | Closed

datatype IssuePriority = Low | Medium | High | Critical

text \<open>The string of each enumeration value, as the source writes it.\<close>

fun state_str :: "IssueState \<Rightarrow> string" where
  "state_str New = ''new''"
| "state_str Pending = ''pending''"
| "state_str InProgress = ''in_progress''"
| "state_str Review = ''review''"
| "state_str Done = ''done''"
| "state_str Closed = ''closed''"

fun priority_str :: "IssuePriority \<Rightarrow> string" where
  "priority_str Low = ''low''"
| "priority_str Medium = ''medium''"
| "priority_str High = ''high''"
| "priority_str Critical = ''critical''"

record IssueData =
  issue_id :: string
  title :: string
  body :: string
  state :: IssueState
  priority :: "IssuePriority option"
  labels :: "string list"
  assignee :: "string option"

text \<open>
  \<open>timestamp\<close> is the value of \<^verbatim>\<open>new Date()\<close>; the clock is a parameter of every
  operation that reads it.
\<close>

record StateTransition =
  from_state :: IssueState
  to_state :: IssueState
  timestamp :: nat
  reason :: "string option"

text \<open>A thrown \<^verbatim>\<open>Error\<close> with its message.\<close>

datatype error = Error string

datatype fsm_event =
    StateChanged StateTransition
  | PriorityAssigned IssuePriority
  | LabelsUpdated "string list"
  | ReadyForProcessing IssueData
  | ErrorEvent error

text \<open>
  The object: its two private fields, and the events it has emitted so far, oldest first.
\<close>

record IssueFSM =
  issue :: IssueData
  transitionHistory :: "StateTransition list"
  emitted :: "fsm_event list"

definition new_IssueFSM :: "IssueData \<Rightarrow> IssueFSM" where
  "new_IssueFSM i = \<lparr>issue = i, transitionHistory = [], emitted = []\<rparr>"

definition emit :: "fsm_event \<Rightarrow> IssueFSM \<Rightarrow> IssueFSM" where
  "emit e fsm = fsm\<lparr>emitted := emitted fsm @ [e]\<rparr>"

definition transitionToPending :: "nat \<Rightarrow> IssueFSM \<Rightarrow> IssueFSM" where
  "transitionToPending now fsm =
     (let previousState = state (issue fsm);
          fsm1 = fsm\<lparr>issue := (issue fsm)\<lparr>state := Pending\<rparr>\<rparr>;
          transition = \<lparr>from_state = previousState, to_state = Pending, timestamp = now,
                        reason = Some ''Auto-transition from new issue''\<rparr>;
          fsm2 = fsm1\<lparr>transitionHistory := transitionHistory fsm1 @ [transition]\<rparr>
      in emit (StateChanged transition) fsm2)"

definition issue_text :: "IssueData \<Rightarrow> string" where
  "issue_text i = toLowerCase (title i @ '' '' @ body i)"

definition critical_keywords :: "string list" where
  "critical_keywords = [''critical'', ''urgent'', ''emergency'', ''production down'', ''security'']"

definition high_keywords :: "string list" where
  "high_keywords = [''high priority'', ''important'', ''blocker'', ''blocking'', ''asap'']"

definition medium_keywords :: "string list" where
  "medium_keywords = [''medium'', ''should'', ''need'', ''improvement'']"

definition low_keywords :: "string list" where
  "low_keywords = [''low'', ''minor'', ''nice to have'', ''enhancement'', ''documentation'']"

text \<open>
  One \<^verbatim>\<open>for (const keyword of ...) { if (text.includes(keyword)) { assignedPriority = p; break; } }\<close>
  loop: \<open>assigned\<close> is the value of \<^verbatim>\<open>assignedPriority\<close> on entry.
\<close>

fun scan_keywords :: "string \<Rightarrow> string list \<Rightarrow> IssuePriority \<Rightarrow> IssuePriority \<Rightarrow> IssuePriority" where
  "scan_keywords text [] p assigned = assigned"
| "scan_keywords text (keyword # rest) p assigned =
     (if includes_str text keyword then p else scan_keywords text rest p assigned)"

definition assignedPriority :: "string \<Rightarrow> IssuePriority" where
  "assignedPriority text =
     (let a0 = Medium;
          a1 = scan_keywords text critical_keywords Critical a0;
          a2 = (if a1 = Medium then scan_keywords text high_keywords High a1 else a1);
          a3 = (if a2 = Medium then scan_keywords text low_keywords Low a2 else a2)
      in a3)"

definition autoAssignPriority :: "IssueFSM \<Rightarrow> IssueFSM" where
  "autoAssignPriority fsm =
     (let text = issue_text (issue fsm);
          p = assignedPriority text;
          fsm1 = fsm\<lparr>issue := (issue fsm)\<lparr>priority := Some p\<rparr>\<rparr>
      in emit (PriorityAssigned p) fsm1)"

text \<open>
  \<^verbatim>\<open>[...new Set(xs)]\<close>: a set keeps the first occurrence of every element, in insertion
  order. \<open>set_add\<close> is one \<^verbatim>\<open>Set.prototype.add\<close>.
\<close>

definition set_add :: "'a list \<Rightarrow> 'a \<Rightarrow> 'a list" where
  "set_add acc x = (if x \<in> set acc then acc else acc @ [x])"

definition new_Set :: "'a list \<Rightarrow> 'a list" where
  "new_Set xs = foldl set_add [] xs"

definition newLabels :: "IssueData \<Rightarrow> string list" where
  "newLabels i =
     (let text = issue_text i in
        (case priority i of Some p \<Rightarrow> [''priority:'' @ priority_str p] | None \<Rightarrow> [])
      @ (if includes_str text ''bug'' \<or> includes_str text ''error'' \<or> includes_str text ''fix''
         then [''bug''] else [])
      @ (if includes_str text ''feature'' \<or> includes_str text ''enhancement''
         then [''enhancement''] else [])
      @ (if includes_str text ''test'' \<or> includes_str text ''testing'' then [''testing''] else [])
      @ (if includes_str text ''documentation'' \<or> includes_str text ''docs''
         then [''documentation''] else [])
      @ (if includes_str text ''state machine'' \<or> includes_str text ''fsm''
         then [''state-machine''] else [])
      @ (if includes_str text ''agent'' \<or> includes_str text ''pipeline''
         then [''agent-system''] else [])
      @ [''state:'' @ state_str (state i)])"

definition addAutoLabels :: "IssueFSM \<Rightarrow> IssueFSM" where
  "addAutoLabels fsm =
     (let i = issue fsm;
          merged = new_Set (labels i @ newLabels i);
          fsm1 = fsm\<lparr>issue := i\<lparr>labels := merged\<rparr>\<rparr>
      in emit (LabelsUpdated merged) fsm1)"

text \<open>
  A method returns the outcome (\<open>Inl\<close> the thrown error) together with the object after
  the call. No step of \<open>initialize\<close> throws, so its \<^verbatim>\<open>catch\<close> block, which emits
  \<^verbatim>\<open>error\<close> and throws again, is never entered here.
\<close>

definition initialize :: "nat \<Rightarrow> IssueFSM \<Rightarrow> (error + unit) \<times> IssueFSM" where
  "initialize now fsm =
     (if state (issue fsm) = New then
        (let fsm1 = transitionToPending now fsm;
             fsm2 = autoAssignPriority fsm1;
             fsm3 = addAutoLabels fsm2
         in (Inr (), emit (ReadyForProcessing (issue fsm3)) fsm3))
      else (Inr (), fsm))"

fun validTransitions :: "IssueState \<Rightarrow> IssueState list" where
  "validTransitions New = [Pending, Closed]"
| "validTransitions Pending = [InProgress, Closed]"
| "validTransitions InProgress = [Review, Pending, Closed]"
| "validTransitions Review = [Done, InProgress, Closed]"
| "validTransitions Done = [Closed, InProgress]"
| "validTransitions Closed = [Pending]"

definition transition :: "IssueState \<Rightarrow> string option \<Rightarrow> nat \<Rightarrow> IssueFSM \<Rightarrow> (error + unit) \<times> IssueFSM" where
  "transition toState rsn now fsm =
     (if toState \<notin> set (validTransitions (state (issue fsm))) then
        (Inl (Error (''Invalid transition from '' @ state_str (state (issue fsm))
                     @ '' to '' @ state_str toState)), fsm)
      else
        (let previousState = state (issue fsm);
             fsm1 = fsm\<lparr>issue := (issue fsm)\<lparr>state := toState\<rparr>\<rparr>;
             tr = \<lparr>from_state = previousState, to_state = toState, timestamp = now,
                   reason = rsn\<rparr>;
             fsm2 = fsm1\<lparr>transitionHistory := transitionHistory fsm1 @ [tr]\<rparr>;
             fsm3 = emit (StateChanged tr) fsm2;
             kept = filter (\<lambda>l. \<not> startsWith l ''state:'') (labels (issue fsm3))
         in (Inr (), fsm3\<lparr>issue := (issue fsm3)\<lparr>labels := kept @ [''state:'' @ state_str toState]\<rparr>\<rparr>)))"

definition getIssue :: "IssueFSM \<Rightarrow> IssueData" where
  "getIssue fsm = issue fsm"

definition getHistory :: "IssueFSM \<Rightarrow> StateTransition list" where
  "getHistory fsm = transitionHistory fsm"

definition canTransitionTo :: "IssueState \<Rightarrow> IssueFSM \<Rightarrow> bool" where
  "canTransitionTo toState fsm = (toState \<in> set (validTransitions (state (issue fsm))))"

text \<open>The transition table of the specification, as a set of pairs.\<close>

definition transition_table :: "(IssueState \<times> IssueState) set" where
  "transition_table =
     {(New, Pending), (New, Closed),
      (Pending, InProgress), (Pending, Closed),
      (InProgress, Review), (InProgress, Pending), (InProgress, Closed),
      (Review, Done), (Review, InProgress), (Review, Closed),
      (Done, Closed), (Done, InProgress),
      (Closed, Pending)}"

section \<open>The agent pipeline (\<^verbatim>\<open>src/state-machine/AgentPipeline.ts\<close>)\<close>

text \<open>An agent: its name and its one operation, which returns a record or throws.\<close>

record Agent =
  name :: string
  process :: "IssueData \<Rightarrow> error + IssueData"

datatype pipeline_event =
    AgentRegistered string
  | AgentsCleared
  | AgentStart string string
  | AgentComplete string string
  | PipelineComplete IssueData
  | PipelineError error
  | IssueStateChanged StateTransition
  | IssuePriorityAssigned IssuePriority
  | IssueLabelsUpdated "string list"
  | IssueReady IssueData
  | FsmError error

record AgentPipeline =
  agents :: "Agent list"
  fsm :: "IssueFSM option"
  pipeline_emitted :: "pipeline_event list"

definition pipeline_emit :: "pipeline_event \<Rightarrow> AgentPipeline \<Rightarrow> AgentPipeline" where
  "pipeline_emit e p = p\<lparr>pipeline_emitted := pipeline_emitted p @ [e]\<rparr>"

definition registerAgent :: "Agent \<Rightarrow> AgentPipeline \<Rightarrow> AgentPipeline" where
  "registerAgent agent p =
     pipeline_emit (AgentRegistered (name agent)) (p\<lparr>agents := agents p @ [agent]\<rparr>)"

definition getAgents :: "AgentPipeline \<Rightarrow> Agent list" where
  "getAgents p = agents p"

definition clearAgents :: "AgentPipeline \<Rightarrow> AgentPipeline" where
  "clearAgents p = pipeline_emit AgentsCleared (p\<lparr>agents := []\<rparr>)"

text \<open>
  \<^verbatim>\<open>setupFSMListeners\<close>: every event of the state machine is emitted again by the
  pipeline, at once, under the pipeline's name for it.
\<close>

fun forward :: "fsm_event \<Rightarrow> pipeline_event" where
  "forward (StateChanged tr) = IssueStateChanged tr"
| "forward (PriorityAssigned p) = IssuePriorityAssigned p"
| "forward (LabelsUpdated ls) = IssueLabelsUpdated ls"
| "forward (ReadyForProcessing i) = IssueReady i"
| "forward (ErrorEvent e) = FsmError e"

text \<open>
  The loop \<^verbatim>\<open>for (const agent of this.agents)\<close>; a throwing agent ends it, and the
  error goes to the \<^verbatim>\<open>catch\<close> block of \<open>processIssue\<close>.
\<close>

fun run_agents :: "Agent list \<Rightarrow> IssueData \<Rightarrow> AgentPipeline \<Rightarrow> (error + IssueData) \<times> AgentPipeline" where
  "run_agents [] processedIssue p = (Inr processedIssue, p)"
| "run_agents (agent # rest) processedIssue p =
     (let p1 = pipeline_emit (AgentStart (name agent) (issue_id processedIssue)) p in
      case process agent processedIssue of
        Inl e \<Rightarrow> (Inl e, p1)
      | Inr out \<Rightarrow>
          run_agents rest out (pipeline_emit (AgentComplete (name agent) (issue_id out)) p1))"

text \<open>
  \<open>processIssue\<close> from the point where \<^verbatim>\<open>await this.fsm.initialize()\<close> has returned or
  thrown: \<open>init\<close> is that outcome and the state machine after it. The events the state
  machine emitted have been forwarded by then.
\<close>

definition processIssue_initialized ::
  "(error + unit) \<times> IssueFSM \<Rightarrow> AgentPipeline \<Rightarrow> (error + IssueData) \<times> AgentPipeline" where
  "processIssue_initialized init p =
     (let p1 = p\<lparr>fsm := Some (snd init),
                  pipeline_emitted := pipeline_emitted p @ map forward (emitted (snd init))\<rparr>
      in case fst init of
           Inl e \<Rightarrow> (Inl e, pipeline_emit (PipelineError e) p1)
         | Inr _ \<Rightarrow>
             (case run_agents (agents p1) (getIssue (snd init)) p1 of
                (Inl e, p2) \<Rightarrow> (Inl e, pipeline_emit (PipelineError e) p2)
              | (Inr processedIssue, p2) \<Rightarrow>
                  (Inr processedIssue, pipeline_emit (PipelineComplete processedIssue) p2)))"

definition processIssue :: "nat \<Rightarrow> IssueData \<Rightarrow> AgentPipeline \<Rightarrow> (error + IssueData) \<times> AgentPipeline" where
  "processIssue now i p = processIssue_initialized (initialize now (new_IssueFSM i)) p"

text \<open>
  What the specification says of the agents, to compare \<open>run_agents\<close> with: \<open>chain\<close>
  applies the agents in list order, each to the output of the one before, up to the first
  failure; \<open>agent_events\<close> is the start and complete signals of that run.
\<close>

fun chain :: "Agent list \<Rightarrow> IssueData \<Rightarrow> error + IssueData" where
  "chain [] i = Inr i"
| "chain (a # rest) i = (case process a i of Inl e \<Rightarrow> Inl e | Inr out \<Rightarrow> chain rest out)"

fun agent_events :: "Agent list \<Rightarrow> IssueData \<Rightarrow> pipeline_event list" where
  "agent_events [] i = []"
| "agent_events (a # rest) i =
     AgentStart (name a) (issue_id i) #
     (case process a i of
        Inl e \<Rightarrow> []
      | Inr out \<Rightarrow> AgentComplete (name a) (issue_id out) # agent_events rest out)"

section \<open>The task graph builder (\<^verbatim>\<open>CoordinatorAgent\<close>)\<close>

record Task =
  task_id :: string
  task_title :: string
  dependencies :: "string list"
  estimatedEffort :: string
  agent :: string

record DAG =
  dag_tasks :: "Task list"
  dag_levels :: "string list list"
  dag_hasCycles :: bool

text \<open>The four local variables of \<open>buildDAG\<close> that its closure \<open>visit\<close> updates.\<close>

record build_state =
  levels :: "string list list"
  visited :: "string set"
  inProgress :: "string set"
  hasCycles :: bool

text \<open>\<^verbatim>\<open>while (levels.length <= level) levels.push([])\<close>\<close>

function pad_levels :: "string list list \<Rightarrow> nat \<Rightarrow> string list list" where
  "pad_levels ls level = (if length ls \<le> level then pad_levels (ls @ [ [] ]) level else ls)"
  by pat_completeness auto
termination
  by (relation "measure (\<lambda>(ls, level). Suc level - length ls)") auto

declare pad_levels.simps [simp del]

definition add_to_level :: "string list list \<Rightarrow> nat \<Rightarrow> string \<Rightarrow> string list list" where
  "add_to_level ls level taskId =
     (let ls' = pad_levels ls level in ls'[level := ls' ! level @ [taskId] ])"

text \<open>
  \<open>visit\<close>, and \<open>visit_deps\<close> for its loop \<^verbatim>\<open>for (const dep of task.dependencies)\<close>.
  \<open>find\<close> is \<^verbatim>\<open>tasks.find\<close>: the first task of the list with that identifier.
\<close>

function
  visit :: "Task list \<Rightarrow> string \<Rightarrow> nat \<Rightarrow> build_state \<Rightarrow> build_state" and
  visit_deps :: "Task list \<Rightarrow> string list \<Rightarrow> nat \<Rightarrow> build_state \<Rightarrow> build_state"
where
  "visit tasks taskId level s =
     (if taskId \<in> inProgress s then s\<lparr>hasCycles := True\<rparr>
      else if taskId \<in> visited s then s
      else
        let s1 = s\<lparr>inProgress := insert taskId (inProgress s)\<rparr>;
            s2 = (case find (\<lambda>t. task_id t = taskId) tasks of
                    Some task \<Rightarrow> visit_deps tasks (dependencies task) (level + 1) s1
                  | None \<Rightarrow> s1);
            s3 = s2\<lparr>visited := insert taskId (visited s2)\<rparr>;
            s4 = s3\<lparr>inProgress := inProgress s3 - {taskId}\<rparr>
        in s4\<lparr>levels := add_to_level (levels s4) level taskId\<rparr>)"
| "visit_deps tasks [] level s = s"
| "visit_deps tasks (dep # deps) level s =
     visit_deps tasks deps level (visit tasks dep level s)"
  by pat_completeness auto

text \<open>
  The recursion ends: a nested call has one more identifier of the list in progress, and
  a call leaves the set of identifiers in progress as it found it.
\<close>

termination
proof -
  have kept:
    "visit_visit_deps_dom (Inl (tasks, taskId, level, s)) \<Longrightarrow>
       inProgress (visit tasks taskId level s) = inProgress s"
    "visit_visit_deps_dom (Inr (tasks, deps, level, s)) \<Longrightarrow>
       inProgress (visit_deps tasks deps level s) = inProgress s"
    for tasks taskId level s deps
  proof (induct rule: visit_visit_deps.pinduct)
    case (1 tasks taskId level s)
    then show ?case
      by (auto simp: visit.psimps Let_def split: option.splits)
  next
    case (2 tasks level s)
    then show ?case by (simp add: visit_deps.psimps)
  next
    case (3 tasks dep deps level s)
    then show ?case by (simp add: visit_deps.psimps)
  qed
  show ?thesis
  proof (relation
      "measures [\<lambda>x. case x of
                        Inl (tasks, taskId, level, s) \<Rightarrow>
                          card (set (map task_id tasks) - inProgress s)
                      | Inr (tasks, deps, level, s) \<Rightarrow>
                          card (set (map task_id tasks) - inProgress s),
                 \<lambda>x. case x of Inl _ \<Rightarrow> 0 | Inr (tasks, deps, level, s) \<Rightarrow> Suc (length deps)]",
      goal_cases)
    case 1
    show ?case by simp
  next
    case (2 tasks taskId level s s1 task)
    then have "taskId \<in> set (map task_id tasks) - inProgress s"
      by (auto simp: find_Some_iff)
    then have "card (set (map task_id tasks) - insert taskId (inProgress s))
                 < card (set (map task_id tasks) - inProgress s)"
      by (metis Diff_insert List.finite_set card_Diff1_less finite_Diff)
    with 2 show ?case by simp
  next
    case (3 tasks dep deps level s)
    show ?case by simp
  next
    case (4 tasks dep deps level s)
    then show ?case by (simp add: kept)
  qed
qed

declare visit.simps [simp del]

text \<open>\<^verbatim>\<open>for (const task of tasks) { if (!visited.has(task.id)) visit(task.id, 0); }\<close>\<close>

fun visit_all :: "Task list \<Rightarrow> Task list \<Rightarrow> build_state \<Rightarrow> build_state" where
  "visit_all tasks [] s = s"
| "visit_all tasks (task # rest) s =
     visit_all tasks rest
       (if task_id task \<notin> visited s then visit tasks (task_id task) 0 s else s)"

definition buildDAG :: "Task list \<Rightarrow> DAG" where
  "buildDAG tasks =
     (let s0 = \<lparr>levels = [], visited = {}, inProgress = {}, hasCycles = False\<rparr>;
          s = visit_all tasks tasks s0
      in \<lparr>dag_tasks = tasks, dag_levels = rev (levels s), dag_hasCycles = hasCycles s\<rparr>)"

text \<open>\<^verbatim>\<open>Array.prototype.join\<close>, and a natural number in decimal as a template prints it.\<close>

fun join :: "string \<Rightarrow> string list \<Rightarrow> string" where
  "join sep [] = []"
| "join sep [x] = x"
| "join sep (x # y # ys) = x @ sep @ join sep (y # ys)"

definition digit_char :: "nat \<Rightarrow> char" where
  "digit_char d = ''0123456789'' ! d"

function show_nat :: "nat \<Rightarrow> string" where
  "show_nat n =
     (if n < 10 then [digit_char n] else show_nat (n div 10) @ [digit_char (n mod 10)])"
  by pat_completeness auto
termination
  by (relation "measure id") auto

declare show_nat.simps [simp del]

text \<open>
  The loop of \<open>createExecutionPlan\<close> from index \<open>i\<close> on. Every entry of \<^verbatim>\<open>dag.levels\<close>
  is an array, so \<^verbatim>\<open>if (!level) continue\<close> never skips one.
\<close>

fun plan_lines :: "nat \<Rightarrow> string list list \<Rightarrow> string list" where
  "plan_lines i [] = []"
| "plan_lines i (level # rest) =
     (if length level = 1
      then ''Level '' @ show_nat (i + 1) @ '': '' @ (case level of [] \<Rightarrow> [] | x # _ \<Rightarrow> x)
      else ''Level '' @ show_nat (i + 1) @ '': '' @ join '', '' level @ '' (parallel)'')
     # plan_lines (i + 1) rest"

definition createExecutionPlan :: "DAG \<Rightarrow> string list" where
  "createExecutionPlan dag = plan_lines 0 (dag_levels dag)"

datatype ComplexityType = CSmall | CMedium | CLarge | CXLarge

record CoordinatorResult =
  success :: bool
  complexity :: ComplexityType
  dag :: DAG
  executionPlan :: "string list"

text \<open>
  The calls that \<open>execute\<close> makes to the issue tracker, in order: the comments it posts
  (named by their kind and their variable parts) and the labels it adds.
\<close>

datatype comment =
    Started
  | Completed ComplexityType DAG "string list"
  | Failed string

datatype github_call =
    CreateComment nat comment
  | AddLabels nat ComplexityType

text \<open>
  \<open>execute\<close>: \<open>cx\<close> and \<open>tasks\<close> are what \<^verbatim>\<open>analyzeComplexity\<close> and
  \<^verbatim>\<open>decomposeTasks\<close> returned from the text generation service, and the calls to the
  issue tracker succeed. The \<^verbatim>\<open>catch\<close> block posts the error's message and throws the
  error again.
\<close>

definition execute :: "nat \<Rightarrow> ComplexityType \<Rightarrow> Task list \<Rightarrow> github_call list \<times> (error + CoordinatorResult)" where
  "execute issueNumber cx tasks =
     (let calls = [CreateComment issueNumber Started];
          d = buildDAG tasks
      in if dag_hasCycles d then
           (calls @ [CreateComment issueNumber
                       (Failed ''Circular dependency detected in task graph'')],
            Inl (Error ''Circular dependency detected in task graph''))
         else
           (let plan = createExecutionPlan d in
              (calls @ [CreateComment issueNumber (Completed cx d plan),
                        AddLabels issueNumber cx],
               Inr \<lparr>success = True, complexity = cx, dag = d, executionPlan = plan\<rparr>)))"

subsection \<open>The dependency relation, and the invariants of the traversal\<close>

text \<open>
  \<open>(x, d) \<in> depends_on tasks\<close>: the task that the identifier \<open>x\<close> names declares the
  dependency \<open>d\<close>. The task an identifier names is the one the lookup of \<open>visit\<close> finds;
  when the identifiers of the list are unique, as the data model has them, this is every
  dependency that a task of the list declares (\<open>depends_on_distinct\<close> below).
\<close>

definition depends_on :: "Task list \<Rightarrow> (string \<times> string) set" where
  "depends_on tasks =
     {(x, d). \<exists>task. find (\<lambda>t. task_id t = x) tasks = Some task \<and> d \<in> set (dependencies task)}"

text \<open>The task list without the dependency identifiers that name no task of the list.\<close>

definition drop_dangling :: "Task list \<Rightarrow> Task list" where
  "drop_dangling tasks =
     map (\<lambda>t. t\<lparr>dependencies := filter (\<lambda>d. d \<in> task_id ` set tasks) (dependencies t)\<rparr>) tasks"

text \<open>
  \<open>good\<close>: no identifier is both done and in progress, and as long as the cycle flag is
  down, the dependencies of a done identifier are done and no done identifier lies on a
  cycle.
\<close>

definition good :: "Task list \<Rightarrow> build_state \<Rightarrow> bool" where
  "good tasks s \<longleftrightarrow>
     visited s \<inter> inProgress s = {} \<and>
     (\<not> hasCycles s \<longrightarrow>
        (\<forall>v\<in>visited s. \<forall>w. (v, w) \<in> depends_on tasks \<longrightarrow> w \<in> visited s) \<and>
        (\<forall>v\<in>visited s. (v, v) \<notin> (depends_on tasks)\<^sup>+))"

definition mentioned :: "Task list \<Rightarrow> string set" where
  "mentioned tasks = task_id ` set tasks \<union> Range (depends_on tasks)"

text \<open>
  \<open>tracked\<close>: the level buckets hold the done identifiers, each of them is mentioned by
  the list, and the dependencies of a done identifier are done or in progress.
\<close>

definition tracked :: "Task list \<Rightarrow> build_state \<Rightarrow> bool" where
  "tracked tasks s \<longleftrightarrow>
     set (concat (levels s)) = visited s \<and>
     visited s \<subseteq> mentioned tasks \<and>
     (\<forall>v\<in>visited s. \<forall>w. (v, w) \<in> depends_on tasks \<longrightarrow> w \<in> visited s \<union> inProgress s)"

section \<open>Properties of the lifecycle state machine\<close>

lemma table_iff: "(a, b) \<in> transition_table \<longleftrightarrow> b \<in> set (validTransitions a)"
  by (cases a; cases b; simp add: transition_table_def)

text \<open>
  C5. For every pair (from, to) that is absent from the transition table,
  \<open>transition to\<close> throws the error whose message names the current state and the
  requested one, and the object after the call is the object before it: state, labels,
  transition history (and the emitted events) are unchanged.
\<close>

theorem transition_invalid:
  "(state (issue m), toState) \<notin> transition_table \<Longrightarrow>
     transition toState rsn now m =
       (Inl (Error (''Invalid transition from '' @ state_str (state (issue m))
                    @ '' to '' @ state_str toState)), m)"
  by (simp add: transition_def table_iff)

theorem transition_invalid_witness:
  "(Pending, Done) \<notin> transition_table \<and>
   transition Done None 7
     \<lparr>issue = \<lparr>issue_id = ''test-123'', title = ''Test Issue'', body = ''Test description'',
                state = Pending, priority = Some Medium,
                labels = [''priority:medium'', ''state:pending''], assignee = None\<rparr>,
      transitionHistory = [], emitted = []\<rparr>
   = (Inl (Error ''Invalid transition from pending to done''),
      \<lparr>issue = \<lparr>issue_id = ''test-123'', title = ''Test Issue'', body = ''Test description'',
                state = Pending, priority = Some Medium,
                labels = [''priority:medium'', ''state:pending''], assignee = None\<rparr>,
      transitionHistory = [], emitted = []\<rparr>)"
proof -
  let ?m = "\<lparr>issue = \<lparr>issue_id = ''test-123'', title = ''Test Issue'',
                body = ''Test description'', state = Pending, priority = Some Medium,
                labels = [''priority:medium'', ''state:pending''], assignee = None\<rparr>,
      transitionHistory = [], emitted = []\<rparr>"
  have h: "(state (issue ?m), Done) \<notin> transition_table"
    by (simp add: transition_table_def)
  from transition_invalid [OF h, of None 7] h show ?thesis
    by simp
qed

text \<open>
  C6. For every pair (from, to) of the transition table, \<open>transition to\<close> succeeds, the
  current state becomes \<open>to\<close>, exactly one record (from, to, the time, the reason) is
  appended to the history, every label that starts with \<open>state:\<close> is removed and the one
  label \<open>state:<to>\<close> is appended: it is then the only label with that prefix.
\<close>

theorem transition_valid:
  "(state (issue m), toState) \<in> transition_table \<Longrightarrow>
     (let r = transition toState rsn now m; m' = snd r in
        fst r = Inr () \<and>
        state (issue m') = toState \<and>
        transitionHistory m' = transitionHistory m @
          [\<lparr>from_state = state (issue m), to_state = toState, timestamp = now,
            reason = rsn\<rparr>] \<and>
        labels (issue m') =
          filter (\<lambda>l. \<not> startsWith l ''state:'') (labels (issue m))
            @ [''state:'' @ state_str toState] \<and>
        filter (\<lambda>l. startsWith l ''state:'') (labels (issue m'))
          = [''state:'' @ state_str toState])"
  by (simp add: transition_def table_iff Let_def emit_def)

theorem transition_valid_witness:
  "(Pending, InProgress) \<in> transition_table \<and>
   (let r = transition InProgress (Some ''start'') 7
              \<lparr>issue = \<lparr>issue_id = ''test-123'', title = ''Test Issue'', body = '''',
                         state = Pending, priority = None,
                         labels = [''state:pending'', ''bug'', ''state:new''],
                         assignee = None\<rparr>,
               transitionHistory = [], emitted = []\<rparr>
    in fst r = Inr () \<and> state (issue (snd r)) = InProgress \<and>
       transitionHistory (snd r) =
         [\<lparr>from_state = Pending, to_state = InProgress, timestamp = 7,
           reason = Some ''start''\<rparr>] \<and>
       labels (issue (snd r)) = [''bug'', ''state:in_progress''])"
proof -
  let ?m = "\<lparr>issue = \<lparr>issue_id = ''test-123'', title = ''Test Issue'', body = '''',
                         state = Pending, priority = None,
                         labels = [''state:pending'', ''bug'', ''state:new''],
                         assignee = None\<rparr>,
               transitionHistory = [], emitted = []\<rparr>"
  have h: "(state (issue ?m), InProgress) \<in> transition_table"
    by (simp add: transition_table_def)
  from transition_valid [OF h, of "Some ''start''" 7] h show ?thesis
    by (simp add: Let_def)
qed

subsection \<open>Automatic classification\<close>

lemma set_foldl_set_add: "set (foldl set_add acc xs) = set acc \<union> set xs"
  by (induction xs arbitrary: acc) (auto simp: set_add_def)

lemma distinct_foldl_set_add: "distinct acc \<Longrightarrow> distinct (foldl set_add acc xs)"
  by (induction xs arbitrary: acc) (auto simp: set_add_def)

lemma foldl_set_add_absorb: "set xs \<subseteq> set acc \<Longrightarrow> foldl set_add acc xs = acc"
  by (induction xs arbitrary: acc) (auto simp: set_add_def)

lemma foldl_set_add_distinct:
  "distinct xs \<Longrightarrow> set acc \<inter> set xs = {} \<Longrightarrow> foldl set_add acc xs = acc @ xs"
  by (induction xs arbitrary: acc) (auto simp: set_add_def)

lemma new_Set_distinct: "distinct (new_Set xs)"
  by (simp add: new_Set_def distinct_foldl_set_add)

lemma set_new_Set: "set (new_Set xs) = set xs"
  by (simp add: new_Set_def set_foldl_set_add)

lemma new_Set_again:
  assumes "distinct ls" "set ns \<subseteq> set ls"
  shows "new_Set (ls @ ns) = ls"
proof -
  have "foldl set_add [] ls = ls"
    using foldl_set_add_distinct [of ls "[]"] assms(1) by simp
  then show ?thesis
    using assms(2) by (simp add: new_Set_def foldl_set_add_absorb)
qed

lemma newLabels_cong:
  "title j = title i \<Longrightarrow> body j = body i \<Longrightarrow> priority j = priority i \<Longrightarrow> state j = state i
     \<Longrightarrow> newLabels j = newLabels i"
  by (simp add: newLabels_def issue_text_def)

lemma state_label_in_newLabels: "(''state:'' @ state_str (state i)) \<in> set (newLabels i)"
  by (simp add: newLabels_def Let_def)

lemma priority_label_in_newLabels:
  "priority i = Some p \<Longrightarrow> (''priority:'' @ priority_str p) \<in> set (newLabels i)"
  by (simp add: newLabels_def Let_def)

lemma issue_addAutoLabels:
  "issue (addAutoLabels m) =
     (issue m)\<lparr>labels := new_Set (labels (issue m) @ newLabels (issue m))\<rparr>"
  by (simp add: addAutoLabels_def Let_def emit_def)

lemma issue_autoAssignPriority:
  "issue (autoAssignPriority m) =
     (issue m)\<lparr>priority := Some (assignedPriority (issue_text (issue m)))\<rparr>"
  by (simp add: autoAssignPriority_def Let_def emit_def)

lemma issue_transitionToPending:
  "issue (transitionToPending now m) = (issue m)\<lparr>state := Pending\<rparr>"
  by (simp add: transitionToPending_def Let_def emit_def)

lemma initialize_from_new:
  "state (issue m) = New \<Longrightarrow>
   initialize now m =
     (Inr (),
      emit (ReadyForProcessing
              (issue (addAutoLabels (autoAssignPriority (transitionToPending now m)))))
        (addAutoLabels (autoAssignPriority (transitionToPending now m))))"
  by (simp add: initialize_def Let_def)

lemma scan_keywords_eq:
  "scan_keywords text ks p a = (if \<exists>k\<in>set ks. includes_str text k then p else a)"
  by (induction ks) auto

lemma initialize_general:
  assumes "state (issue m) = New"
  shows "(let r = initialize now m; i' = issue (snd r) in
        fst r = Inr () \<and> state i' = Pending \<and>
        (\<exists>p. priority i' = Some p \<and> (''priority:'' @ priority_str p) \<in> set (labels i')) \<and>
        ''state:pending'' \<in> set (labels i'))"
proof -
  let ?p = "assignedPriority (issue_text ((issue m)\<lparr>state := Pending\<rparr>))"
  let ?j = "(issue m)\<lparr>state := Pending, priority := Some ?p\<rparr>"
  let ?i' = "?j\<lparr>labels := new_Set (labels ?j @ newLabels ?j)\<rparr>"
  have i': "issue (snd (initialize now m)) = ?i'"
    by (simp add: initialize_from_new [OF assms] emit_def issue_addAutoLabels
        issue_autoAssignPriority issue_transitionToPending)
  have "(''state:'' @ state_str (state ?j)) \<in> set (newLabels ?j)"
    by (rule state_label_in_newLabels)
  then have st: "''state:pending'' \<in> set (labels ?i')"
    by (simp add: set_new_Set)
  have "(''priority:'' @ priority_str ?p) \<in> set (newLabels ?j)"
    by (rule priority_label_in_newLabels) simp
  then have pr: "(''priority:'' @ priority_str ?p) \<in> set (labels ?i')"
    by (simp add: set_new_Set)
  show ?thesis
    unfolding Let_def i' using st pr by (simp add: initialize_from_new [OF assms])
qed

lemma text_example: "toLowerCase ''Critical production bug '' = ''critical production bug ''"
  by (simp add: toLowerCase_def lower_char_def)

lemma priority_example: "assignedPriority ''critical production bug '' = Critical"
  by (simp add: assignedPriority_def critical_keywords_def)

lemma labels_example:
  "title i = ''Critical production bug'' \<Longrightarrow> body i = '''' \<Longrightarrow> priority i = Some Critical \<Longrightarrow>
   state i = Pending \<Longrightarrow> newLabels i = [''priority:critical'', ''bug'', ''state:pending'']"
  by (simp add: newLabels_def issue_text_def text_example Let_def)

lemma new_Set_example:
  "new_Set [''priority:critical'', ''bug'', ''state:pending'']
     = [''priority:critical'', ''bug'', ''state:pending'']"
  by (simp add: new_Set_def set_add_def)

lemma initialize_example:
  "issue (snd (initialize now (new_IssueFSM
      \<lparr>issue_id = x, title = ''Critical production bug'', body = '''', state = New,
        priority = None, labels = [], assignee = a\<rparr>)))
   = \<lparr>issue_id = x, title = ''Critical production bug'', body = '''', state = Pending,
       priority = Some Critical, labels = [''priority:critical'', ''bug'', ''state:pending''],
       assignee = a\<rparr>"
proof -
  let ?i = "\<lparr>issue_id = x, title = ''Critical production bug'', body = '''', state = New,
              priority = None, labels = [], assignee = a\<rparr>"
  let ?k = "\<lparr>issue_id = x, title = ''Critical production bug'', body = '''', state = Pending,
              priority = None, labels = [], assignee = a\<rparr>"
  let ?j = "\<lparr>issue_id = x, title = ''Critical production bug'', body = '''', state = Pending,
              priority = Some Critical, labels = [], assignee = a\<rparr>"
  have new: "state (issue (new_IssueFSM ?i)) = New" "issue (new_IssueFSM ?i) = ?i"
    by (simp_all add: new_IssueFSM_def)
  have p: "assignedPriority (issue_text ?k) = Critical"
    by (simp add: issue_text_def text_example priority_example)
  have l: "newLabels ?j = [''priority:critical'', ''bug'', ''state:pending'']"
    by (rule labels_example) simp_all
  show ?thesis
    by (simp add: initialize_from_new [OF new(1)] emit_def issue_addAutoLabels
        issue_autoAssignPriority issue_transitionToPending new(2) p l new_Set_example)
qed

text \<open>
  C7. \<open>initialize\<close> on a record whose state is \<open>new\<close> returns normally with the state
  \<open>pending\<close>, with one priority assigned, and with labels that contain \<open>state:pending\<close>
  and \<open>priority:<assigned>\<close>. For the record with title "Critical production bug", an
  empty body and no labels (whatever its identifier and assignee) the result has state
  \<open>pending\<close>, priority \<open>critical\<close> and exactly the labels \<open>priority:critical\<close>, \<open>bug\<close>,
  \<open>state:pending\<close>.
\<close>

theorem initialize_new:
  "(state (issue m) = New \<longrightarrow>
     (let r = initialize now m; i' = issue (snd r) in
        fst r = Inr () \<and> state i' = Pending \<and>
        (\<exists>p. priority i' = Some p \<and> (''priority:'' @ priority_str p) \<in> set (labels i')) \<and>
        ''state:pending'' \<in> set (labels i')))
   \<and> (let i' = issue (snd (initialize now (new_IssueFSM
                \<lparr>issue_id = x, title = ''Critical production bug'', body = '''', state = New,
                  priority = None, labels = [], assignee = a\<rparr>)))
      in state i' = Pending \<and> priority i' = Some Critical \<and>
         labels i' = [''priority:critical'', ''bug'', ''state:pending''])"
  using initialize_general [of m now] by (simp add: initialize_example Let_def)

theorem initialize_new_witness:
  "state (issue (new_IssueFSM
      \<lparr>issue_id = ''test-123'', title = ''Minor documentation update'',
        body = ''Test description'', state = New, priority = None, labels = [],
        assignee = None\<rparr>)) = New
   \<and> (let r = initialize 7 (new_IssueFSM
                \<lparr>issue_id = ''test-123'', title = ''Minor documentation update'',
                  body = ''Test description'', state = New, priority = None, labels = [],
                  assignee = None\<rparr>);
          i' = issue (snd r)
      in fst r = Inr () \<and> state i' = Pending \<and>
        (\<exists>p. priority i' = Some p \<and> (''priority:'' @ priority_str p) \<in> set (labels i')) \<and>
        ''state:pending'' \<in> set (labels i'))"
proof -
  let ?m = "new_IssueFSM
      \<lparr>issue_id = ''test-123'', title = ''Minor documentation update'',
        body = ''Test description'', state = New, priority = None, labels = [],
        assignee = None\<rparr>"
  have h: "state (issue ?m) = New"
    by (simp add: new_IssueFSM_def)
  from h initialize_new [of ?m 7, THEN conjunct1, rule_format, OF h] show ?thesis
    by (rule conjI)
qed

text \<open>
  C8. The assigned priority is \<open>critical\<close> when the lowercased title, a space and the body
  include a critical keyword; otherwise \<open>high\<close> when they include a high keyword;
  otherwise \<open>low\<close> when they include a low keyword; otherwise \<open>medium\<close>, which no keyword
  search assigns. So a text with a critical keyword and a low keyword gets \<open>critical\<close>.
\<close>

theorem autoAssignPriority_precedence:
  "(let text = toLowerCase (title (issue m) @ '' '' @ body (issue m));
        assigned = priority (issue (autoAssignPriority m))
    in assigned = Some (if \<exists>k\<in>set critical_keywords. includes_str text k then Critical
                        else if \<exists>k\<in>set high_keywords. includes_str text k then High
                        else if \<exists>k\<in>set low_keywords. includes_str text k then Low
                        else Medium)
       \<and> ((\<exists>k\<in>set critical_keywords. includes_str text k)
            \<and> (\<exists>k\<in>set low_keywords. includes_str text k) \<longrightarrow> assigned = Some Critical))"
  by (simp add: autoAssignPriority_def assignedPriority_def Let_def emit_def issue_text_def
      scan_keywords_eq)

theorem autoAssignPriority_precedence_witness:
  "includes_str (toLowerCase ''Urgent: minor typo '') ''urgent'' \<and>
   includes_str (toLowerCase ''Urgent: minor typo '') ''minor'' \<and>
   priority (issue (autoAssignPriority (new_IssueFSM
      \<lparr>issue_id = ''test-123'', title = ''Urgent: minor typo'', body = '''', state = Pending,
        priority = None, labels = [], assignee = None\<rparr>))) = Some Critical"
proof -
  let ?m = "new_IssueFSM
      \<lparr>issue_id = ''test-123'', title = ''Urgent: minor typo'', body = '''', state = Pending,
        priority = None, labels = [], assignee = None\<rparr>"
  have t: "toLowerCase (title (issue ?m) @ '' '' @ body (issue ?m)) = ''urgent: minor typo ''"
    by (simp add: new_IssueFSM_def toLowerCase_def lower_char_def)
  have t': "toLowerCase ''Urgent: minor typo '' = ''urgent: minor typo ''"
    by (simp add: toLowerCase_def lower_char_def)
  have c: "includes_str ''urgent: minor typo '' ''urgent''"
    by simp
  have l: "includes_str ''urgent: minor typo '' ''minor''"
    by simp
  have c': "\<exists>k\<in>set critical_keywords. includes_str ''urgent: minor typo '' k"
    using c by (simp add: critical_keywords_def)
  have l': "\<exists>k\<in>set low_keywords. includes_str ''urgent: minor typo '' k"
    using l by (simp add: low_keywords_def)
  from autoAssignPriority_precedence [of ?m]
  have "priority (issue (autoAssignPriority ?m)) = Some Critical"
    unfolding Let_def t using c' l' by blast
  with c l show ?thesis
    by (simp only: t' simp_thms)
qed

text \<open>
  C9. Running the automatic label step a second time leaves the label list as the first
  run made it, and that list has no label twice, whatever the text and the labels it
  started from.
\<close>

theorem addAutoLabels_idempotent:
  "labels (issue (addAutoLabels (addAutoLabels m))) = labels (issue (addAutoLabels m))
   \<and> distinct (labels (issue (addAutoLabels m)))"
proof -
  let ?i = "issue m"
  let ?ls = "new_Set (labels ?i @ newLabels ?i)"
  have one: "issue (addAutoLabels m) = ?i\<lparr>labels := ?ls\<rparr>"
    by (rule issue_addAutoLabels)
  have same: "newLabels (?i\<lparr>labels := ?ls\<rparr>) = newLabels ?i"
    by (rule newLabels_cong) simp_all
  have "labels (issue (addAutoLabels (addAutoLabels m))) = new_Set (?ls @ newLabels ?i)"
    by (simp add: issue_addAutoLabels [of "addAutoLabels m"] one same)
  also have "\<dots> = ?ls"
    by (rule new_Set_again) (simp_all add: new_Set_distinct set_new_Set)
  finally show ?thesis
    by (simp add: one new_Set_distinct)
qed

section \<open>Properties of the agent pipeline\<close>

lemma run_agents_eq:
  "run_agents as i p =
     (chain as i, p\<lparr>pipeline_emitted := pipeline_emitted p @ agent_events as i\<rparr>)"
  by (induction as arbitrary: i p) (auto simp: pipeline_emit_def Let_def split: sum.splits)

lemma chain_append:
  "chain (pre @ rest) i = (case chain pre i of Inl e \<Rightarrow> Inl e | Inr x \<Rightarrow> chain rest x)"
  by (induction pre arbitrary: i) (auto split: sum.splits)

lemma agent_events_append:
  "agent_events (pre @ rest) i =
     agent_events pre i @ (case chain pre i of Inl e \<Rightarrow> [] | Inr x \<Rightarrow> agent_events rest x)"
  by (induction pre arbitrary: i) (auto split: sum.splits)


text \<open>
  C10. \<open>processIssue\<close> runs the agents only after \<open>initialize\<close> has returned, on the
  issue record the state machine then holds; the events forwarded from the state machine
  come before every agent event. If \<open>initialize\<close> throws, or if an agent throws after the agents
  \<open>pre\<close> before it have run in list order, each on the output of the one before, the
  pipeline emits \<open>PipelineError\<close> with that error last, returns that error and no record,
  and no agent after the failing one is started: the result does not depend on \<open>post\<close>.
  If no agent throws, the result is the output of the last agent and \<open>PipelineComplete\<close>
  is emitted last.
\<close>

theorem processIssue_pipeline:
  "(fst init = Inl e \<longrightarrow>
      processIssue_initialized init p =
        (Inl e, p\<lparr>fsm := Some (snd init),
                  pipeline_emitted := pipeline_emitted p @ map forward (emitted (snd init))
                                      @ [PipelineError e]\<rparr>))
   \<and> (fst init = Inr () \<and> agents p = pre @ a # post \<and>
        chain pre (getIssue (snd init)) = Inr x \<and> process a x = Inl e \<longrightarrow>
      processIssue_initialized init p =
        (Inl e, p\<lparr>fsm := Some (snd init),
                  pipeline_emitted := pipeline_emitted p @ map forward (emitted (snd init))
                                      @ agent_events pre (getIssue (snd init))
                                      @ [AgentStart (name a) (issue_id x), PipelineError e]\<rparr>))
   \<and> (fst init = Inr () \<and> chain (agents p) (getIssue (snd init)) = Inr out \<longrightarrow>
      processIssue_initialized init p =
        (Inr out, p\<lparr>fsm := Some (snd init),
                    pipeline_emitted := pipeline_emitted p @ map forward (emitted (snd init))
                                        @ agent_events (agents p) (getIssue (snd init))
                                        @ [PipelineComplete out]\<rparr>))
   \<and> processIssue now i p = processIssue_initialized (initialize now (new_IssueFSM i)) p"
proof (intro conjI impI)
  assume "fst init = Inl e"
  then show "processIssue_initialized init p =
        (Inl e, p\<lparr>fsm := Some (snd init),
                  pipeline_emitted := pipeline_emitted p @ map forward (emitted (snd init))
                                      @ [PipelineError e]\<rparr>)"
    by (simp add: processIssue_initialized_def pipeline_emit_def Let_def)
next
  assume h: "fst init = Inr () \<and> agents p = pre @ a # post \<and>
        chain pre (getIssue (snd init)) = Inr x \<and> process a x = Inl e"
  then have c: "chain (agents p) (getIssue (snd init)) = Inl e"
    by (simp add: chain_append)
  from h have ev: "agent_events (agents p) (getIssue (snd init)) =
      agent_events pre (getIssue (snd init)) @ [AgentStart (name a) (issue_id x)]"
    by (simp add: agent_events_append)
  from h c ev show "processIssue_initialized init p =
        (Inl e, p\<lparr>fsm := Some (snd init),
                  pipeline_emitted := pipeline_emitted p @ map forward (emitted (snd init))
                                      @ agent_events pre (getIssue (snd init))
                                      @ [AgentStart (name a) (issue_id x), PipelineError e]\<rparr>)"
    by (simp add: processIssue_initialized_def pipeline_emit_def Let_def run_agents_eq)
next
  assume h: "fst init = Inr () \<and> chain (agents p) (getIssue (snd init)) = Inr out"
  then show "processIssue_initialized init p =
        (Inr out, p\<lparr>fsm := Some (snd init),
                    pipeline_emitted := pipeline_emitted p @ map forward (emitted (snd init))
                                        @ agent_events (agents p) (getIssue (snd init))
                                        @ [PipelineComplete out]\<rparr>)"
    by (simp add: processIssue_initialized_def pipeline_emit_def Let_def run_agents_eq)
next
  show "processIssue now i p = processIssue_initialized (initialize now (new_IssueFSM i)) p"
    by (simp add: processIssue_def)
qed

theorem processIssue_pipeline_witness:
  "processIssue_initialized
     (Inl (Error ''listener failed''),
      \<lparr>issue = \<lparr>issue_id = ''test-456'', title = ''Test Pipeline Issue'', body = '''',
                 state = Pending, priority = None, labels = [], assignee = None\<rparr>,
       transitionHistory = [], emitted = [ErrorEvent (Error ''listener failed'')]\<rparr>)
     \<lparr>agents = [\<lparr>name = ''Agent1'',
                  process = \<lambda>i. Inr (i\<lparr>labels := labels i @ [''agent1-processed'']\<rparr>)\<rparr>],
      fsm = None, pipeline_emitted = []\<rparr>
   = (Inl (Error ''listener failed''),
      \<lparr>agents = [\<lparr>name = ''Agent1'',
                   process = \<lambda>i. Inr (i\<lparr>labels := labels i @ [''agent1-processed'']\<rparr>)\<rparr>],
       fsm = Some
         \<lparr>issue = \<lparr>issue_id = ''test-456'', title = ''Test Pipeline Issue'', body = '''',
                 state = Pending, priority = None, labels = [], assignee = None\<rparr>,
          transitionHistory = [], emitted = [ErrorEvent (Error ''listener failed'')]\<rparr>,
       pipeline_emitted = [FsmError (Error ''listener failed''),
                           PipelineError (Error ''listener failed'')]\<rparr>)
   \<and> processIssue_initialized
     (Inr (),
      \<lparr>issue = \<lparr>issue_id = ''test-456'', title = ''Test Pipeline Issue'', body = '''',
                 state = Pending, priority = None, labels = [], assignee = None\<rparr>,
       transitionHistory = [], emitted = []\<rparr>)
     \<lparr>agents = [\<lparr>name = ''Agent1'',
                  process = \<lambda>i. Inr (i\<lparr>labels := labels i @ [''agent1-processed'']\<rparr>)\<rparr>,
                \<lparr>name = ''ErrorAgent'',
                  process = \<lambda>i. Inl (Error ''Agent processing failed'')\<rparr>,
                \<lparr>name = ''Agent3'',
                  process = \<lambda>i. Inr (i\<lparr>labels := labels i @ [''agent3-processed'']\<rparr>)\<rparr>],
      fsm = None, pipeline_emitted = []\<rparr>
   = (Inl (Error ''Agent processing failed''),
      \<lparr>agents = [\<lparr>name = ''Agent1'',
                  process = \<lambda>i. Inr (i\<lparr>labels := labels i @ [''agent1-processed'']\<rparr>)\<rparr>,
                \<lparr>name = ''ErrorAgent'',
                  process = \<lambda>i. Inl (Error ''Agent processing failed'')\<rparr>,
                \<lparr>name = ''Agent3'',
                  process = \<lambda>i. Inr (i\<lparr>labels := labels i @ [''agent3-processed'']\<rparr>)\<rparr>],
       fsm = Some
         \<lparr>issue = \<lparr>issue_id = ''test-456'', title = ''Test Pipeline Issue'', body = '''',
                 state = Pending, priority = None, labels = [], assignee = None\<rparr>,
          transitionHistory = [], emitted = []\<rparr>,
       pipeline_emitted = [AgentStart ''Agent1'' ''test-456'', AgentComplete ''Agent1'' ''test-456'',
                           AgentStart ''ErrorAgent'' ''test-456'',
                           PipelineError (Error ''Agent processing failed'')]\<rparr>)
   \<and> processIssue_initialized
     (Inr (),
      \<lparr>issue = \<lparr>issue_id = ''test-456'', title = ''Test Pipeline Issue'', body = '''',
                 state = Pending, priority = None, labels = [], assignee = None\<rparr>,
       transitionHistory = [], emitted = []\<rparr>)
     \<lparr>agents = [\<lparr>name = ''Agent1'',
                  process = \<lambda>i. Inr (i\<lparr>labels := labels i @ [''agent1-processed'']\<rparr>)\<rparr>,
                \<lparr>name = ''Agent2'',
                  process = \<lambda>i. Inr (i\<lparr>labels := labels i @ [''agent2-processed'']\<rparr>)\<rparr>],
      fsm = None, pipeline_emitted = []\<rparr>
   = (Inr \<lparr>issue_id = ''test-456'', title = ''Test Pipeline Issue'', body = '''',
            state = Pending, priority = None,
            labels = [''agent1-processed'', ''agent2-processed''], assignee = None\<rparr>,
      \<lparr>agents = [\<lparr>name = ''Agent1'',
                  process = \<lambda>i. Inr (i\<lparr>labels := labels i @ [''agent1-processed'']\<rparr>)\<rparr>,
                \<lparr>name = ''Agent2'',
                  process = \<lambda>i. Inr (i\<lparr>labels := labels i @ [''agent2-processed'']\<rparr>)\<rparr>],
       fsm = Some
         \<lparr>issue = \<lparr>issue_id = ''test-456'', title = ''Test Pipeline Issue'', body = '''',
                 state = Pending, priority = None, labels = [], assignee = None\<rparr>,
          transitionHistory = [], emitted = []\<rparr>,
       pipeline_emitted = [AgentStart ''Agent1'' ''test-456'', AgentComplete ''Agent1'' ''test-456'',
                           AgentStart ''Agent2'' ''test-456'', AgentComplete ''Agent2'' ''test-456'',
                           PipelineComplete
                             \<lparr>issue_id = ''test-456'', title = ''Test Pipeline Issue'', body = '''',
                              state = Pending, priority = None,
                              labels = [''agent1-processed'', ''agent2-processed''],
                              assignee = None\<rparr>]\<rparr>)"
proof -
  let ?I = "\<lparr>issue_id = ''test-456'', title = ''Test Pipeline Issue'', body = '''',
                 state = Pending, priority = None, labels = [], assignee = None\<rparr>"
  let ?I1 = "\<lparr>issue_id = ''test-456'', title = ''Test Pipeline Issue'', body = '''',
                 state = Pending, priority = None, labels = [''agent1-processed''],
                 assignee = None\<rparr>"
  let ?I2 = "\<lparr>issue_id = ''test-456'', title = ''Test Pipeline Issue'', body = '''',
                 state = Pending, priority = None,
                 labels = [''agent1-processed'', ''agent2-processed''], assignee = None\<rparr>"
  let ?F = "\<lparr>issue = ?I, transitionHistory = [], emitted = []\<rparr>"
  let ?Fe = "\<lparr>issue = ?I, transitionHistory = [],
              emitted = [ErrorEvent (Error ''listener failed'')]\<rparr>"
  let ?A1 = "\<lparr>name = ''Agent1'',
               process = \<lambda>i. Inr (i\<lparr>labels := labels i @ [''agent1-processed'']\<rparr>)\<rparr>"
  let ?A2 = "\<lparr>name = ''Agent2'',
               process = \<lambda>i. Inr (i\<lparr>labels := labels i @ [''agent2-processed'']\<rparr>)\<rparr>"
  let ?A3 = "\<lparr>name = ''Agent3'',
               process = \<lambda>i. Inr (i\<lparr>labels := labels i @ [''agent3-processed'']\<rparr>)\<rparr>"
  let ?AE = "\<lparr>name = ''ErrorAgent'', process = \<lambda>i. Inl (Error ''Agent processing failed'')\<rparr>"
  let ?p1 = "\<lparr>agents = [?A1], fsm = None, pipeline_emitted = []\<rparr>"
  let ?p2 = "\<lparr>agents = [?A1, ?AE, ?A3], fsm = None, pipeline_emitted = []\<rparr>"
  let ?p3 = "\<lparr>agents = [?A1, ?A2], fsm = None, pipeline_emitted = []\<rparr>"
  have h1: "fst (Inl (Error ''listener failed'') :: error + unit, ?Fe) = Inl (Error ''listener failed'')"
    by simp
  have h2: "fst (Inr () :: error + unit, ?F) = Inr () \<and> agents ?p2 = [?A1] @ ?AE # [?A3] \<and>
        chain [?A1] (getIssue (snd (Inr () :: error + unit, ?F))) = Inr ?I1 \<and>
        process ?AE ?I1 = Inl (Error ''Agent processing failed'')"
    by (simp add: getIssue_def)
  have h3: "fst (Inr () :: error + unit, ?F) = Inr () \<and>
        chain (agents ?p3) (getIssue (snd (Inr () :: error + unit, ?F))) = Inr ?I2"
    by (simp add: getIssue_def)
  have c1: "processIssue_initialized (Inl (Error ''listener failed''), ?Fe) ?p1 =
      (Inl (Error ''listener failed''),
       ?p1\<lparr>fsm := Some ?Fe,
            pipeline_emitted := [FsmError (Error ''listener failed''),
                                 PipelineError (Error ''listener failed'')]\<rparr>)"
    using processIssue_pipeline
      [of "(Inl (Error ''listener failed''), ?Fe)" "Error ''listener failed''" ?p1,
       THEN conjunct1, rule_format, OF h1]
    by simp
  have c2: "processIssue_initialized (Inr (), ?F) ?p2 =
      (Inl (Error ''Agent processing failed''),
       ?p2\<lparr>fsm := Some ?F,
            pipeline_emitted := [AgentStart ''Agent1'' ''test-456'',
                                 AgentComplete ''Agent1'' ''test-456'',
                                 AgentStart ''ErrorAgent'' ''test-456'',
                                 PipelineError (Error ''Agent processing failed'')]\<rparr>)"
    using processIssue_pipeline
      [of "(Inr (), ?F)" "Error ''Agent processing failed''" ?p2 "[?A1]" ?AE "[?A3]" ?I1,
       THEN conjunct2, THEN conjunct1, rule_format, OF h2]
    by (simp add: getIssue_def)
  have c3: "processIssue_initialized (Inr (), ?F) ?p3 =
      (Inr ?I2,
       ?p3\<lparr>fsm := Some ?F,
            pipeline_emitted := [AgentStart ''Agent1'' ''test-456'',
                                 AgentComplete ''Agent1'' ''test-456'',
                                 AgentStart ''Agent2'' ''test-456'',
                                 AgentComplete ''Agent2'' ''test-456'',
                                 PipelineComplete ?I2]\<rparr>)"
    using processIssue_pipeline
      [of "(Inr (), ?F)" _ ?p3 _ _ _ _ ?I2,
       THEN conjunct2, THEN conjunct2, THEN conjunct1, rule_format, OF h3]
    by (simp add: getIssue_def)
  from c1 c2 c3 show ?thesis by simp
qed

section \<open>Properties of the task graph builder\<close>

subsection \<open>Cycle detection\<close>

lemma closed_rtrancl:
  assumes "\<forall>v\<in>V. \<forall>w. (v, w) \<in> E \<longrightarrow> w \<in> V" "(w, x) \<in> E\<^sup>*" "w \<in> V"
  shows "x \<in> V"
  using assms(2,3,1) by (induct rule: rtrancl_induct) auto

lemma good_finish:
  assumes g: "good tasks s2"
    and x: "x \<in> inProgress s2"
    and deps: "\<not> hasCycles s2 \<longrightarrow> (\<forall>w. (x, w) \<in> depends_on tasks \<longrightarrow> w \<in> visited s2)"
  shows "good tasks (s2\<lparr>visited := insert x (visited s2), inProgress := inProgress s2 - {x},
                          levels := ls\<rparr>)"
proof -
  let ?E = "depends_on tasks"
  from g x have xV: "x \<notin> visited s2" by (auto simp: good_def)
  have disj: "insert x (visited s2) \<inter> (inProgress s2 - {x}) = {}"
    using g by (auto simp: good_def)
  have rest: "(\<forall>v\<in>insert x (visited s2). \<forall>w. (v, w) \<in> ?E \<longrightarrow> w \<in> insert x (visited s2)) \<and>
              (\<forall>v\<in>insert x (visited s2). (v, v) \<notin> ?E\<^sup>+)" if nc: "\<not> hasCycles s2"
  proof -
    from g nc have cl: "\<forall>v\<in>visited s2. \<forall>w. (v, w) \<in> ?E \<longrightarrow> w \<in> visited s2"
      and ac: "\<forall>v\<in>visited s2. (v, v) \<notin> ?E\<^sup>+" by (simp_all add: good_def)
    from deps nc have dx: "\<forall>w. (x, w) \<in> ?E \<longrightarrow> w \<in> visited s2" by simp
    have nx: "(x, x) \<notin> ?E\<^sup>+"
    proof
      assume "(x, x) \<in> ?E\<^sup>+"
      then obtain w where w: "(x, w) \<in> ?E" "(w, x) \<in> ?E\<^sup>*"
        by (blast dest: tranclD)
      from w(1) dx have "w \<in> visited s2" by simp
      from closed_rtrancl [OF cl w(2) this] xV show False by simp
    qed
    have 1: "\<forall>v\<in>insert x (visited s2). \<forall>w. (v, w) \<in> ?E \<longrightarrow> w \<in> insert x (visited s2)"
      using cl dx by simp
    have 2: "\<forall>v\<in>insert x (visited s2). (v, v) \<notin> ?E\<^sup>+"
      using ac nx by simp
    from 1 2 show ?thesis ..
  qed
  show ?thesis
    unfolding good_def using disj rest by simp
qed

lemma depends_on_find:
  "find (\<lambda>t. task_id t = x) tasks = Some task \<Longrightarrow>
     (x, w) \<in> depends_on tasks \<longleftrightarrow> w \<in> set (dependencies task)"
  "find (\<lambda>t. task_id t = x) tasks = None \<Longrightarrow> (x, w) \<notin> depends_on tasks"
  by (simp_all add: depends_on_def)

lemma visit_good:
  "good tasks s \<Longrightarrow>
     good tasks (visit tasks x level s) \<and>
     inProgress (visit tasks x level s) = inProgress s \<and>
     visited s \<subseteq> visited (visit tasks x level s) \<and>
     (hasCycles s \<longrightarrow> hasCycles (visit tasks x level s)) \<and>
     (\<not> hasCycles (visit tasks x level s) \<longrightarrow> x \<in> visited (visit tasks x level s))"
  "good tasks s \<Longrightarrow>
     good tasks (visit_deps tasks deps level s) \<and>
     inProgress (visit_deps tasks deps level s) = inProgress s \<and>
     visited s \<subseteq> visited (visit_deps tasks deps level s) \<and>
     (hasCycles s \<longrightarrow> hasCycles (visit_deps tasks deps level s)) \<and>
     (\<not> hasCycles (visit_deps tasks deps level s) \<longrightarrow> set deps \<subseteq> visited (visit_deps tasks deps level s))"
proof (induct tasks x level s and tasks deps level s rule: visit_visit_deps.induct)
  case (1 tasks taskId level s)
  show ?case
  proof (cases "taskId \<in> inProgress s")
    case True
    with 1(2) show ?thesis by (simp add: visit.simps good_def)
  next
    case nP: False
    show ?thesis
    proof (cases "taskId \<in> visited s")
      case True
      with nP 1(2) show ?thesis by (simp add: visit.simps)
    next
      case nV: False
      let ?s1 = "s\<lparr>inProgress := insert taskId (inProgress s)\<rparr>"
      let ?s2 = "case find (\<lambda>t. task_id t = taskId) tasks of
                    Some task \<Rightarrow> visit_deps tasks (dependencies task) (level + 1) ?s1
                  | None \<Rightarrow> ?s1"
      have g1: "good tasks ?s1" using 1(2) nV by (auto simp: good_def)
      have s2: "good tasks ?s2 \<and> inProgress ?s2 = inProgress ?s1 \<and> visited ?s1 \<subseteq> visited ?s2 \<and>
            (hasCycles ?s1 \<longrightarrow> hasCycles ?s2) \<and>
            (\<not> hasCycles ?s2 \<longrightarrow> (\<forall>w. (taskId, w) \<in> depends_on tasks \<longrightarrow> w \<in> visited ?s2))"
      proof (cases "find (\<lambda>t. task_id t = taskId) tasks")
        case None
        with g1 show ?thesis by (simp add: depends_on_find)
      next
        case (Some task)
        from 1(1) [OF nP nV refl Some g1] show ?thesis
          by (simp add: Some depends_on_find(1) [OF Some] subset_eq)
      qed
      have v: "visit tasks taskId level s =
          ?s2\<lparr>visited := insert taskId (visited ?s2), inProgress := inProgress ?s2 - {taskId},
               levels := add_to_level (levels ?s2) level taskId\<rparr>"
        using nP nV by (simp add: visit.simps [of tasks taskId level s] Let_def)
      from s2 have g2: "good tasks ?s2"
        and p2: "inProgress ?s2 = insert taskId (inProgress s)"
        and d2: "\<not> hasCycles ?s2 \<longrightarrow> (\<forall>w. (taskId, w) \<in> depends_on tasks \<longrightarrow> w \<in> visited ?s2)"
        by simp_all
      have "good tasks (visit tasks taskId level s)"
        unfolding v by (rule good_finish [OF g2 _ d2]) (simp add: p2)
      moreover have "inProgress (visit tasks taskId level s) = inProgress s"
        unfolding v using p2 nP by simp
      moreover have "visited s \<subseteq> visited (visit tasks taskId level s)"
        unfolding v using s2 by (simp add: subset_insertI2)
      moreover have "hasCycles s \<longrightarrow> hasCycles (visit tasks taskId level s)"
        unfolding v using s2 by simp
      moreover have "taskId \<in> visited (visit tasks taskId level s)"
        unfolding v by simp
      ultimately show ?thesis by blast
    qed
  qed
next
  case (2 tasks level s)
  then show ?case by simp
next
  case (3 tasks dep deps level s)
  from 3(1) [OF 3(3)] have a: "good tasks (visit tasks dep level s)"
    and b: "inProgress (visit tasks dep level s) = inProgress s"
    and c: "visited s \<subseteq> visited (visit tasks dep level s)"
    and d: "hasCycles s \<longrightarrow> hasCycles (visit tasks dep level s)"
    and e: "\<not> hasCycles (visit tasks dep level s) \<longrightarrow> dep \<in> visited (visit tasks dep level s)"
    by blast+
  let ?t = "visit tasks dep level s"
  from 3(2) [OF a] have a': "good tasks (visit_deps tasks deps level ?t)"
    and b': "inProgress (visit_deps tasks deps level ?t) = inProgress ?t"
    and c': "visited ?t \<subseteq> visited (visit_deps tasks deps level ?t)"
    and d': "hasCycles ?t \<longrightarrow> hasCycles (visit_deps tasks deps level ?t)"
    and e': "\<not> hasCycles (visit_deps tasks deps level ?t) \<longrightarrow>
               set deps \<subseteq> visited (visit_deps tasks deps level ?t)"
    by blast+
  have "dep \<in> visited (visit_deps tasks deps level ?t)"
    if "\<not> hasCycles (visit_deps tasks deps level ?t)"
    using that d' e c' by blast
  with a' b' b c c' d d' e' show ?case
    by simp
qed

lemma inProgress_visit: "inProgress (visit tasks x level s) = inProgress s"
  and inProgress_visit_deps: "inProgress (visit_deps tasks deps level s) = inProgress s"
proof (induct tasks x level s and tasks deps level s rule: visit_visit_deps.induct)
  case (1 tasks taskId level s)
  then show ?case
    by (auto simp: visit.simps [of tasks taskId level s] Let_def split: option.splits)
next
  case (2 tasks level s)
  show ?case by simp
next
  case (3 tasks dep deps level s)
  then show ?case by simp
qed

lemma visit_all_good:
  "good tasks s \<Longrightarrow>
     good tasks (visit_all tasks ts s) \<and>
     inProgress (visit_all tasks ts s) = inProgress s \<and>
     visited s \<subseteq> visited (visit_all tasks ts s) \<and>
     (hasCycles s \<longrightarrow> hasCycles (visit_all tasks ts s)) \<and>
     (\<not> hasCycles (visit_all tasks ts s) \<longrightarrow> task_id ` set ts \<subseteq> visited (visit_all tasks ts s))"
proof (induction ts arbitrary: s)
  case Nil
  then show ?case by simp
next
  case (Cons t ts)
  let ?s' = "if task_id t \<notin> visited s then visit tasks (task_id t) 0 s else s"
  have a: "good tasks ?s'" and b: "inProgress ?s' = inProgress s"
    and c: "visited s \<subseteq> visited ?s'" and d: "hasCycles s \<longrightarrow> hasCycles ?s'"
    and e: "\<not> hasCycles ?s' \<longrightarrow> task_id t \<in> visited ?s'"
    using visit_good(1) [OF Cons.prems, of "task_id t" 0] Cons.prems by simp_all
  from Cons.IH [OF a]
  have a': "good tasks (visit_all tasks ts ?s')"
    and b': "inProgress (visit_all tasks ts ?s') = inProgress ?s'"
    and c': "visited ?s' \<subseteq> visited (visit_all tasks ts ?s')"
    and d': "hasCycles ?s' \<longrightarrow> hasCycles (visit_all tasks ts ?s')"
    and e': "\<not> hasCycles (visit_all tasks ts ?s') \<longrightarrow>
               task_id ` set ts \<subseteq> visited (visit_all tasks ts ?s')"
    by blast+
  have v: "visit_all tasks (t # ts) s = visit_all tasks ts ?s'" by simp
  have "task_id t \<in> visited (visit_all tasks ts ?s')"
    if "\<not> hasCycles (visit_all tasks ts ?s')"
    using that d' e c' by blast
  with a' b' b c c' d d' e' show ?case
    unfolding v by (simp del: visit_all.simps)
qed

lemma good_initial:
  "good tasks \<lparr>levels = [], visited = {}, inProgress = {}, hasCycles = False\<rparr>"
  by (simp add: good_def)

lemma depends_on_source:
  "(x, w) \<in> depends_on tasks \<Longrightarrow> x \<in> task_id ` set tasks"
  by (auto simp: depends_on_def find_Some_iff)

lemma cycle_sets_flag:
  assumes "(a, a) \<in> (depends_on tasks)\<^sup>+"
  shows "dag_hasCycles (buildDAG tasks)"
proof (rule ccontr)
  let ?init = "\<lparr>levels = [], visited = {}, inProgress = {}, hasCycles = False\<rparr>"
  let ?s = "visit_all tasks tasks ?init"
  assume "\<not> dag_hasCycles (buildDAG tasks)"
  then have nc: "\<not> hasCycles ?s" by (simp add: buildDAG_def Let_def)
  from visit_all_good [OF good_initial, of tasks tasks] nc
  have g: "good tasks ?s" and all: "task_id ` set tasks \<subseteq> visited ?s" by blast+
  from assms obtain w where "(a, w) \<in> depends_on tasks" by (blast dest: tranclD)
  then have "a \<in> task_id ` set tasks" by (rule depends_on_source)
  with all have "a \<in> visited ?s" by blast
  with g nc have "(a, a) \<notin> (depends_on tasks)\<^sup>+" by (simp add: good_def)
  with assms show False by simp
qed

lemma visit_sound:
  "\<forall>y\<in>inProgress s. (y, x) \<in> (depends_on tasks)\<^sup>+ \<Longrightarrow> hasCycles (visit tasks x level s) \<Longrightarrow>
     hasCycles s \<or> (\<exists>a. (a, a) \<in> (depends_on tasks)\<^sup>+)"
  "\<forall>d\<in>set deps. \<forall>y\<in>inProgress s. (y, d) \<in> (depends_on tasks)\<^sup>+ \<Longrightarrow>
     hasCycles (visit_deps tasks deps level s) \<Longrightarrow>
     hasCycles s \<or> (\<exists>a. (a, a) \<in> (depends_on tasks)\<^sup>+)"
proof (induct tasks x level s and tasks deps level s rule: visit_visit_deps.induct)
  case (1 tasks taskId level s)
  show ?case
  proof (cases "taskId \<in> inProgress s")
    case True
    with 1(2) show ?thesis by blast
  next
    case nP: False
    show ?thesis
    proof (cases "taskId \<in> visited s")
      case True
      with nP 1(3) show ?thesis by (simp add: visit.simps [of tasks taskId level s])
    next
      case nV: False
      let ?s1 = "s\<lparr>inProgress := insert taskId (inProgress s)\<rparr>"
      show ?thesis
      proof (cases "find (\<lambda>t. task_id t = taskId) tasks")
        case None
        with nP nV 1(3) show ?thesis
          by (simp add: visit.simps [of tasks taskId level s] Let_def)
      next
        case (Some task)
        have pre: "\<forall>d\<in>set (dependencies task). \<forall>y\<in>inProgress ?s1. (y, d) \<in> (depends_on tasks)\<^sup>+"
        proof (intro ballI)
          fix d y assume d: "d \<in> set (dependencies task)" and y: "y \<in> inProgress ?s1"
          from d Some have e: "(taskId, d) \<in> depends_on tasks"
            by (simp add: depends_on_find(1))
          show "(y, d) \<in> (depends_on tasks)\<^sup>+"
          proof (cases "y = taskId")
            case True
            with e show ?thesis by blast
          next
            case False
            with y have "y \<in> inProgress s" by simp
            with 1(2) have "(y, taskId) \<in> (depends_on tasks)\<^sup>+" by blast
            from this e show ?thesis by (rule trancl_into_trancl)
          qed
        qed
        from nP nV Some 1(3)
        have "hasCycles (visit_deps tasks (dependencies task) (level + 1) ?s1)"
          by (simp add: visit.simps [of tasks taskId level s] Let_def)
        from 1(1) [OF nP nV refl Some pre this] show ?thesis by simp
      qed
    qed
  qed
next
  case (2 tasks level s)
  then show ?case by simp
next
  case (3 tasks dep deps level s)
  from 3(3) have p1: "\<forall>y\<in>inProgress s. (y, dep) \<in> (depends_on tasks)\<^sup>+" by simp
  from 3(3) have p2: "\<forall>d\<in>set deps. \<forall>y\<in>inProgress (visit tasks dep level s).
                         (y, d) \<in> (depends_on tasks)\<^sup>+"
    by (simp add: inProgress_visit)
  from 3(4) have "hasCycles (visit_deps tasks deps level (visit tasks dep level s))" by simp
  from 3(2) [OF p2 this] 3(1) [OF p1] show ?case by blast
qed

lemma visit_all_sound:
  "inProgress s = {} \<Longrightarrow> hasCycles (visit_all tasks ts s) \<Longrightarrow>
     hasCycles s \<or> (\<exists>a. (a, a) \<in> (depends_on tasks)\<^sup>+)"
proof (induction ts arbitrary: s)
  case Nil
  then show ?case by simp
next
  case (Cons t ts)
  let ?s' = "if task_id t \<notin> visited s then visit tasks (task_id t) 0 s else s"
  have e: "inProgress ?s' = {}" using Cons.prems(1) by (simp add: inProgress_visit)
  from Cons.prems(2) have "hasCycles (visit_all tasks ts ?s')" by simp
  from Cons.IH [OF e this] have "hasCycles ?s' \<or> (\<exists>a. (a, a) \<in> (depends_on tasks)\<^sup>+)" .
  moreover have "hasCycles s \<or> (\<exists>a. (a, a) \<in> (depends_on tasks)\<^sup>+)"
    if "hasCycles (visit tasks (task_id t) 0 s)"
    using visit_sound(1) [OF _ that] Cons.prems(1) by simp
  ultimately show ?case by (auto split: if_splits)
qed

lemma flag_gives_cycle:
  assumes "dag_hasCycles (buildDAG tasks)"
  shows "\<exists>a. (a, a) \<in> (depends_on tasks)\<^sup>+"
proof -
  let ?init = "\<lparr>levels = [], visited = {}, inProgress = {}, hasCycles = False\<rparr>"
  from assms have "hasCycles (visit_all tasks tasks ?init)" by (simp add: buildDAG_def Let_def)
  from visit_all_sound [OF _ this] show ?thesis by simp
qed

lemma hasCycles_iff:
  "dag_hasCycles (buildDAG tasks) \<longleftrightarrow> (\<exists>a. (a, a) \<in> (depends_on tasks)\<^sup>+)"
  using cycle_sets_flag flag_gives_cycle by blast

subsection \<open>The contents of the level buckets\<close>


lemma pad_levels_eq: "pad_levels ls level = ls @ replicate (Suc level - length ls) []"
proof (induct ls level rule: pad_levels.induct)
  case (1 ls level)
  show ?case
  proof (cases "length ls \<le> level")
    case True
    then have "Suc level - length ls = Suc (level - length ls)" by simp
    with 1 True show ?thesis
      by (subst pad_levels.simps) (simp add: replicate_app_Cons_same)
  next
    case False
    then show ?thesis by (subst pad_levels.simps) simp
  qed
qed

lemma set_concat_update:
  "i < length xs \<Longrightarrow> set (concat (xs[i := xs ! i @ [x] ])) = insert x (set (concat xs))"
proof (induction xs arbitrary: i)
  case Nil
  then show ?case by simp
next
  case (Cons y ys)
  then show ?case by (cases i) auto
qed

lemma set_concat_add_to_level:
  "set (concat (add_to_level ls level x)) = insert x (set (concat ls))"
proof -
  let ?ls' = "ls @ replicate (Suc level - length ls) []"
  have "level < length ?ls'" by simp
  then have "set (concat (?ls'[level := ?ls' ! level @ [x] ])) = insert x (set (concat ?ls'))"
    by (rule set_concat_update)
  then show ?thesis
    by (simp add: add_to_level_def pad_levels_eq Let_def)
qed

lemma tracked_finish:
  assumes t: "tracked tasks s2"
    and x: "x \<in> mentioned tasks"
    and deps: "\<forall>w. (x, w) \<in> depends_on tasks \<longrightarrow> w \<in> visited s2 \<union> inProgress s2"
  shows "tracked tasks (s2\<lparr>visited := insert x (visited s2), inProgress := inProgress s2 - {x},
                            levels := add_to_level (levels s2) level x\<rparr>)"
proof -
  from t have 1: "set (concat (levels s2)) = visited s2"
    and 2: "visited s2 \<subseteq> mentioned tasks"
    and 3: "\<forall>v\<in>visited s2. \<forall>w. (v, w) \<in> depends_on tasks \<longrightarrow> w \<in> visited s2 \<union> inProgress s2"
    by (simp_all add: tracked_def del: set_concat)
  have a: "set (concat (add_to_level (levels s2) level x)) = insert x (visited s2)"
    by (simp only: set_concat_add_to_level 1)
  have b: "insert x (visited s2) \<subseteq> mentioned tasks"
    using 2 x by simp
  have c: "\<forall>v\<in>insert x (visited s2). \<forall>w. (v, w) \<in> depends_on tasks \<longrightarrow>
             w \<in> insert x (visited s2) \<union> (inProgress s2 - {x})"
    using 3 deps by blast
  from a b c show ?thesis by (simp add: tracked_def del: set_concat)
qed

lemma visit_tracked:
  "tracked tasks s \<Longrightarrow> x \<in> mentioned tasks \<Longrightarrow>
     tracked tasks (visit tasks x level s) \<and>
     visited s \<subseteq> visited (visit tasks x level s) \<and>
     x \<in> visited (visit tasks x level s) \<union> inProgress s"
  "tracked tasks s \<Longrightarrow> set deps \<subseteq> mentioned tasks \<Longrightarrow>
     tracked tasks (visit_deps tasks deps level s) \<and>
     visited s \<subseteq> visited (visit_deps tasks deps level s) \<and>
     set deps \<subseteq> visited (visit_deps tasks deps level s) \<union> inProgress s"
proof (induct tasks x level s and tasks deps level s rule: visit_visit_deps.induct)
  case (1 tasks taskId level s)
  show ?case
  proof (cases "taskId \<in> inProgress s")
    case True
    with 1(2) show ?thesis by (simp add: visit.simps [of tasks taskId level s] tracked_def)
  next
    case nP: False
    show ?thesis
    proof (cases "taskId \<in> visited s")
      case True
      with nP 1(2) show ?thesis by (simp add: visit.simps [of tasks taskId level s])
    next
      case nV: False
      let ?s1 = "s\<lparr>inProgress := insert taskId (inProgress s)\<rparr>"
      let ?s2 = "case find (\<lambda>t. task_id t = taskId) tasks of
                    Some task \<Rightarrow> visit_deps tasks (dependencies task) (level + 1) ?s1
                  | None \<Rightarrow> ?s1"
      have t1: "tracked tasks ?s1" using 1(2) by (auto simp: tracked_def)
      have s2: "tracked tasks ?s2 \<and> visited s \<subseteq> visited ?s2 \<and>
            (\<forall>w. (taskId, w) \<in> depends_on tasks \<longrightarrow> w \<in> visited ?s2 \<union> inProgress ?s2)"
      proof (cases "find (\<lambda>t. task_id t = taskId) tasks")
        case None
        with t1 show ?thesis by (simp add: depends_on_find)
      next
        case (Some task)
        have "set (dependencies task) \<subseteq> mentioned tasks"
          using depends_on_find(1) [OF Some] by (auto simp: mentioned_def)
        from 1(1) [OF nP nV refl Some t1 this] show ?thesis
          by (simp add: Some depends_on_find(1) [OF Some] subset_eq inProgress_visit_deps)
      qed
      then have t2: "tracked tasks ?s2" and v2: "visited s \<subseteq> visited ?s2"
        and d2: "\<forall>w. (taskId, w) \<in> depends_on tasks \<longrightarrow> w \<in> visited ?s2 \<union> inProgress ?s2"
        by simp_all
      have v: "visit tasks taskId level s =
          ?s2\<lparr>visited := insert taskId (visited ?s2), inProgress := inProgress ?s2 - {taskId},
               levels := add_to_level (levels ?s2) level taskId\<rparr>"
        using nP nV by (simp add: visit.simps [of tasks taskId level s] Let_def)
      have "tracked tasks (visit tasks taskId level s)"
        unfolding v by (rule tracked_finish [OF t2 1(3) d2])
      moreover have "visited s \<subseteq> visited (visit tasks taskId level s)"
        unfolding v using v2 by (simp add: subset_insertI2)
      moreover have "taskId \<in> visited (visit tasks taskId level s)"
        unfolding v by simp
      ultimately show ?thesis by blast
    qed
  qed
next
  case (2 tasks level s)
  then show ?case by simp
next
  case (3 tasks dep deps level s)
  let ?t = "visit tasks dep level s"
  from 3(4) have m1: "dep \<in> mentioned tasks" and m2: "set deps \<subseteq> mentioned tasks" by simp_all
  from 3(1) [OF 3(3) m1] have a: "tracked tasks ?t" and c: "visited s \<subseteq> visited ?t"
    and e: "dep \<in> visited ?t \<union> inProgress s"
    by blast+
  from 3(2) [OF a m2] have a': "tracked tasks (visit_deps tasks deps level ?t)"
    and c': "visited ?t \<subseteq> visited (visit_deps tasks deps level ?t)"
    and e': "set deps \<subseteq> visited (visit_deps tasks deps level ?t) \<union> inProgress ?t"
    by blast+
  have "dep \<in> visited (visit_deps tasks deps level ?t) \<union> inProgress s"
    using e c' by blast
  moreover have "set deps \<subseteq> visited (visit_deps tasks deps level ?t) \<union> inProgress s"
    using e' by (simp add: inProgress_visit)
  moreover have "visited s \<subseteq> visited (visit_deps tasks deps level ?t)"
    using c c' by (rule subset_trans)
  ultimately show ?case using a' by simp
qed

lemma visit_all_tracked:
  "tracked tasks s \<Longrightarrow> set ts \<subseteq> set tasks \<Longrightarrow>
     tracked tasks (visit_all tasks ts s) \<and>
     visited s \<subseteq> visited (visit_all tasks ts s) \<and>
     task_id ` set ts \<subseteq> visited (visit_all tasks ts s) \<union> inProgress s"
proof (induction ts arbitrary: s)
  case Nil
  then show ?case by simp
next
  case (Cons t ts)
  let ?s' = "if task_id t \<notin> visited s then visit tasks (task_id t) 0 s else s"
  from Cons.prems(2) have m: "task_id t \<in> mentioned tasks" and sub: "set ts \<subseteq> set tasks"
    by (simp_all add: mentioned_def)
  have a: "tracked tasks ?s'" and c: "visited s \<subseteq> visited ?s'"
    and e: "task_id t \<in> visited ?s' \<union> inProgress s"
    using visit_tracked(1) [OF Cons.prems(1) m, of 0] Cons.prems(1) by simp_all
  have p: "inProgress ?s' = inProgress s" by (simp add: inProgress_visit)
  from Cons.IH [OF a sub]
  have a': "tracked tasks (visit_all tasks ts ?s')"
    and c': "visited ?s' \<subseteq> visited (visit_all tasks ts ?s')"
    and e': "task_id ` set ts \<subseteq> visited (visit_all tasks ts ?s') \<union> inProgress ?s'"
    by blast+
  have v: "visit_all tasks (t # ts) s = visit_all tasks ts ?s'" by simp
  have "task_id t \<in> visited (visit_all tasks ts ?s') \<union> inProgress s"
    using e c' by blast
  moreover have "visited s \<subseteq> visited (visit_all tasks ts ?s')"
    using c c' by (rule subset_trans)
  ultimately show ?case
    unfolding v using a' e' p by (simp del: visit_all.simps)
qed

lemma inProgress_visit_all: "inProgress (visit_all tasks ts s) = inProgress s"
  by (induction ts arbitrary: s) (simp_all add: inProgress_visit)

lemma levels_buildDAG:
  "set (concat (dag_levels (buildDAG tasks))) = task_id ` set tasks \<union> Range (depends_on tasks)"
proof -
  let ?init = "\<lparr>levels = [], visited = {}, inProgress = {}, hasCycles = False\<rparr>"
  let ?s = "visit_all tasks tasks ?init"
  have "tracked tasks ?init" by (simp add: tracked_def)
  from visit_all_tracked [OF this subset_refl]
  have t: "tracked tasks ?s" and ids: "task_id ` set tasks \<subseteq> visited ?s" by simp_all
  have P: "inProgress ?s = {}" by (simp add: inProgress_visit_all)
  from t P have lv: "set (concat (levels ?s)) = visited ?s"
    and sub: "visited ?s \<subseteq> mentioned tasks"
    and cl: "\<forall>v\<in>visited ?s. \<forall>w. (v, w) \<in> depends_on tasks \<longrightarrow> w \<in> visited ?s"
    by (simp_all add: tracked_def del: set_concat)
  have "Range (depends_on tasks) \<subseteq> visited ?s"
  proof
    fix w assume "w \<in> Range (depends_on tasks)"
    then obtain v where e: "(v, w) \<in> depends_on tasks" by blast
    then have "v \<in> task_id ` set tasks" by (rule depends_on_source)
    with ids cl e show "w \<in> visited ?s" by blast
  qed
  with ids sub have "visited ?s = task_id ` set tasks \<union> Range (depends_on tasks)"
    by (auto simp: mentioned_def)
  with lv have "set (concat (levels ?s)) = task_id ` set tasks \<union> Range (depends_on tasks)"
    by simp
  moreover have "set (concat (rev (levels ?s))) = set (concat (levels ?s))"
    by simp
  ultimately show ?thesis by (simp add: buildDAG_def Let_def del: set_concat)
qed

lemma find_map_keep:
  "(\<And>t. task_id (f t) = task_id t) \<Longrightarrow>
   find (\<lambda>t. task_id t = x) (map f ts) = map_option f (find (\<lambda>t. task_id t = x) ts)"
  by (induction ts) simp_all

lemma depends_on_drop_dangling:
  "depends_on (drop_dangling tasks) = {(x, d) \<in> depends_on tasks. d \<in> task_id ` set tasks}"
  by (auto simp: depends_on_def drop_dangling_def find_map_keep)

lemma trancl_restrict_targets:
  assumes "(a, b) \<in> E\<^sup>+" "b \<in> S" "Domain E \<subseteq> S"
  shows "(a, b) \<in> {(x, d) \<in> E. d \<in> S}\<^sup>+"
  using assms
proof (induct rule: trancl_induct)
  case (base y)
  then show ?case by blast
next
  case (step y z)
  from step(2) step(5) have "y \<in> S" by blast
  from step(3) [OF this step(5)] have "(a, y) \<in> {(x, d) \<in> E. d \<in> S}\<^sup>+" .
  moreover from step(2,4) have "(y, z) \<in> {(x, d) \<in> E. d \<in> S}" by simp
  ultimately show ?case by (rule trancl_into_trancl)
qed

lemma cycle_drop_dangling:
  "(\<exists>a. (a, a) \<in> (depends_on (drop_dangling tasks))\<^sup>+) \<longleftrightarrow> (\<exists>a. (a, a) \<in> (depends_on tasks)\<^sup>+)"
proof
  assume "\<exists>a. (a, a) \<in> (depends_on (drop_dangling tasks))\<^sup>+"
  then obtain a where "(a, a) \<in> (depends_on (drop_dangling tasks))\<^sup>+" ..
  moreover have "depends_on (drop_dangling tasks) \<subseteq> depends_on tasks"
    by (auto simp: depends_on_drop_dangling)
  ultimately have "(a, a) \<in> (depends_on tasks)\<^sup>+"
    using trancl_mono by blast
  then show "\<exists>a. (a, a) \<in> (depends_on tasks)\<^sup>+" ..
next
  assume "\<exists>a. (a, a) \<in> (depends_on tasks)\<^sup>+"
  then obtain a where a: "(a, a) \<in> (depends_on tasks)\<^sup>+" ..
  then obtain w where "(a, w) \<in> depends_on tasks" by (blast dest: tranclD)
  then have S: "a \<in> task_id ` set tasks" by (rule depends_on_source)
  have D: "Domain (depends_on tasks) \<subseteq> task_id ` set tasks"
    using depends_on_source by blast
  from trancl_restrict_targets [OF a S D]
  show "\<exists>a. (a, a) \<in> (depends_on (drop_dangling tasks))\<^sup>+"
    unfolding depends_on_drop_dangling by blast
qed

lemma flag_drop_dangling:
  "dag_hasCycles (buildDAG (drop_dangling tasks)) = dag_hasCycles (buildDAG tasks)"
  by (simp only: hasCycles_iff cycle_drop_dangling)

lemma find_distinct:
  "distinct (map task_id tasks) \<Longrightarrow>
     find (\<lambda>t. task_id t = x) tasks = Some task \<longleftrightarrow> task \<in> set tasks \<and> task_id task = x"
  by (induction tasks) auto

lemma depends_on_distinct:
  "distinct (map task_id tasks) \<Longrightarrow>
     depends_on tasks = {(task_id t, d) | t d. t \<in> set tasks \<and> d \<in> set (dependencies t)}"
  by (auto simp: depends_on_def find_distinct)

lemma buildDAG_two:
  "buildDAG
     [\<lparr>task_id = ''a'', task_title = ta, dependencies = [], estimatedEffort = ea, agent = ga\<rparr>,
      \<lparr>task_id = ''b'', task_title = tb, dependencies = [''a''], estimatedEffort = eb,
        agent = gb\<rparr>]
   = \<lparr>dag_tasks =
       [\<lparr>task_id = ''a'', task_title = ta, dependencies = [], estimatedEffort = ea, agent = ga\<rparr>,
        \<lparr>task_id = ''b'', task_title = tb, dependencies = [''a''], estimatedEffort = eb,
          agent = gb\<rparr>],
      dag_levels = [ [''a'', ''b''] ], dag_hasCycles = False\<rparr>"
  by (simp add: buildDAG_def visit.simps add_to_level_def pad_levels.simps Let_def)

lemma buildDAG_three:
  "buildDAG
     [\<lparr>task_id = ''x'', task_title = tx, dependencies = [], estimatedEffort = ex, agent = gx\<rparr>,
      \<lparr>task_id = ''r'', task_title = tr, dependencies = [''m''], estimatedEffort = er,
        agent = gr\<rparr>,
      \<lparr>task_id = ''m'', task_title = tm, dependencies = [''x''], estimatedEffort = em,
        agent = gm\<rparr>]
   = \<lparr>dag_tasks =
     [\<lparr>task_id = ''x'', task_title = tx, dependencies = [], estimatedEffort = ex, agent = gx\<rparr>,
      \<lparr>task_id = ''r'', task_title = tr, dependencies = [''m''], estimatedEffort = er,
        agent = gr\<rparr>,
      \<lparr>task_id = ''m'', task_title = tm, dependencies = [''x''], estimatedEffort = em,
        agent = gm\<rparr>],
      dag_levels = [ [''m''], [''x'', ''r''] ], dag_hasCycles = False\<rparr>"
  by (simp add: buildDAG_def visit.simps add_to_level_def pad_levels.simps Let_def)

text \<open>
  C1. The cycle flag of an acyclic list is down (\<open>flag_gives_cycle\<close>), but a dependency
  need not be in an earlier level. A task is put at the depth at which the traversal first
  reaches it, and a dependency that is already done is not moved: for the acyclic list of
  \<open>a\<close> and then \<open>b\<close>, which depends on \<open>a\<close>, both are in the one level; for \<open>x\<close>, then
  \<open>r\<close>, which depends on \<open>m\<close>, then \<open>m\<close>, which depends on \<open>x\<close>, the task \<open>m\<close> is in the
  first level and its dependency \<open>x\<close> in the second.
\<close>

theorem buildDAG_dependency_not_earlier:
  "(\<forall>z. (z, z) \<notin> (depends_on
      [\<lparr>task_id = ''a'', task_title = ''A'', dependencies = [], estimatedEffort = ''1h'',
         agent = ''codegen''\<rparr>,
       \<lparr>task_id = ''b'', task_title = ''B'', dependencies = [''a''], estimatedEffort = ''1h'',
         agent = ''review''\<rparr>])\<^sup>+)
   \<and> dag_hasCycles (buildDAG
      [\<lparr>task_id = ''a'', task_title = ''A'', dependencies = [], estimatedEffort = ''1h'',
         agent = ''codegen''\<rparr>,
       \<lparr>task_id = ''b'', task_title = ''B'', dependencies = [''a''], estimatedEffort = ''1h'',
         agent = ''review''\<rparr>]) = False
   \<and> dag_levels (buildDAG
      [\<lparr>task_id = ''a'', task_title = ''A'', dependencies = [], estimatedEffort = ''1h'',
         agent = ''codegen''\<rparr>,
       \<lparr>task_id = ''b'', task_title = ''B'', dependencies = [''a''], estimatedEffort = ''1h'',
         agent = ''review''\<rparr>]) = [ [''a'', ''b''] ]
   \<and> dag_levels (buildDAG
      [\<lparr>task_id = ''x'', task_title = ''X'', dependencies = [], estimatedEffort = ''1h'',
         agent = ''codegen''\<rparr>,
       \<lparr>task_id = ''r'', task_title = ''R'', dependencies = [''m''], estimatedEffort = ''1h'',
         agent = ''review''\<rparr>,
       \<lparr>task_id = ''m'', task_title = ''M'', dependencies = [''x''], estimatedEffort = ''1h'',
         agent = ''test''\<rparr>]) = [ [''m''], [''x'', ''r''] ]"
proof -
  let ?ts = "[\<lparr>task_id = ''a'', task_title = ''A'', dependencies = [], estimatedEffort = ''1h'',
                agent = ''codegen''\<rparr>,
              \<lparr>task_id = ''b'', task_title = ''B'', dependencies = [''a''],
                estimatedEffort = ''1h'', agent = ''review''\<rparr>]"
  have flag: "dag_hasCycles (buildDAG ?ts) = False"
    by (simp add: buildDAG_two)
  with hasCycles_iff [of ?ts] have "\<forall>z. (z, z) \<notin> (depends_on ?ts)\<^sup>+"
    by simp
  with flag show ?thesis
    by (simp add: buildDAG_two buildDAG_three)
qed

text \<open>
  C2. For the list of \<open>t1\<close>, then \<open>t2\<close>, which depends on \<open>t1\<close>, then \<open>t3\<close>, which depends
  on \<open>t2\<close>, the cycle flag is down, but each task is reached at depth 0 after its
  dependency is done: the levels are the one level of \<open>t1\<close>, \<open>t2\<close>, \<open>t3\<close>, and the plan is
  one line, marked parallel.
\<close>

theorem buildDAG_chain_one_level:
  "buildDAG
     [\<lparr>task_id = ''t1'', task_title = x1, dependencies = [], estimatedEffort = e1, agent = g1\<rparr>,
      \<lparr>task_id = ''t2'', task_title = x2, dependencies = [''t1''], estimatedEffort = e2,
        agent = g2\<rparr>,
      \<lparr>task_id = ''t3'', task_title = x3, dependencies = [''t2''], estimatedEffort = e3,
        agent = g3\<rparr>]
   = \<lparr>dag_tasks =
     [\<lparr>task_id = ''t1'', task_title = x1, dependencies = [], estimatedEffort = e1, agent = g1\<rparr>,
      \<lparr>task_id = ''t2'', task_title = x2, dependencies = [''t1''], estimatedEffort = e2,
        agent = g2\<rparr>,
      \<lparr>task_id = ''t3'', task_title = x3, dependencies = [''t2''], estimatedEffort = e3,
        agent = g3\<rparr>],
      dag_levels = [ [''t1'', ''t2'', ''t3''] ], dag_hasCycles = False\<rparr>
   \<and> createExecutionPlan (buildDAG
     [\<lparr>task_id = ''t1'', task_title = x1, dependencies = [], estimatedEffort = e1, agent = g1\<rparr>,
      \<lparr>task_id = ''t2'', task_title = x2, dependencies = [''t1''], estimatedEffort = e2,
        agent = g2\<rparr>,
      \<lparr>task_id = ''t3'', task_title = x3, dependencies = [''t2''], estimatedEffort = e3,
        agent = g3\<rparr>])
     = [''Level 1: t1, t2, t3 (parallel)'']"
  by (simp add: buildDAG_def visit.simps add_to_level_def pad_levels.simps Let_def
      createExecutionPlan_def show_nat.simps digit_char_def)

text \<open>
  C3, as the code has it. A dependency identifier that names no task of the list is not
  ignored: it is visited as a task without dependencies and put in a level bucket. For the
  one task \<open>a\<close> that depends on \<open>x\<close>, the levels are \<open>x\<close> and then \<open>a\<close>.
\<close>

theorem dangling_in_levels_counterexample:
  "''x'' \<notin> set (map task_id
      [\<lparr>task_id = ''a'', task_title = ''A'', dependencies = [''x''], estimatedEffort = ''1h'',
        agent = ''codegen''\<rparr>])
   \<and> dag_levels (buildDAG
      [\<lparr>task_id = ''a'', task_title = ''A'', dependencies = [''x''], estimatedEffort = ''1h'',
        agent = ''codegen''\<rparr>]) = [ [''x''], [''a''] ]"
  by (simp add: buildDAG_def visit.simps add_to_level_def pad_levels.simps Let_def)

text \<open>
  C3, amended. The dependency identifiers that name no task do not affect the cycle flag:
  the list without them has the same flag. The identifiers in the level buckets are the
  identifiers of the tasks of the list and the dependency identifiers that these tasks
  have declared, whether they name a task or not.
\<close>

theorem dangling_dependencies:
  "dag_hasCycles (buildDAG (drop_dangling tasks)) = dag_hasCycles (buildDAG tasks)
   \<and> set (concat (dag_levels (buildDAG tasks)))
       = task_id ` set tasks \<union> Range (depends_on tasks)"
  using flag_drop_dangling [of tasks] levels_buildDAG [of tasks] by (simp del: set_concat)

text \<open>
  C4. When the dependencies of a task list contain a cycle, \<open>buildDAG\<close> returns with the
  cycle flag up (it is a total function: it returns a graph for every list and throws for
  none), and \<open>execute\<close> then throws the error "Circular dependency detected in task
  graph": it posts the comment of its start and the comment of the failure, neither
  computes nor posts a plan, and returns no result.
\<close>

theorem cycle_aborts_execute:
  "(a, a) \<in> (depends_on tasks)\<^sup>+ \<Longrightarrow>
     dag_hasCycles (buildDAG tasks) \<and>
     execute issueNumber cx tasks =
       ([CreateComment issueNumber Started,
         CreateComment issueNumber (Failed ''Circular dependency detected in task graph'')],
        Inl (Error ''Circular dependency detected in task graph''))"
  using cycle_sets_flag [of a tasks] by (simp add: execute_def Let_def)

theorem cycle_aborts_execute_witness:
  "(''A'', ''A'') \<in> (depends_on
      [\<lparr>task_id = ''A'', task_title = ''first'', dependencies = [''B''], estimatedEffort = ''1h'',
        agent = ''codegen''\<rparr>,
       \<lparr>task_id = ''B'', task_title = ''second'', dependencies = [''A''], estimatedEffort = ''1h'',
        agent = ''review''\<rparr>])\<^sup>+
   \<and> dag_hasCycles (buildDAG
      [\<lparr>task_id = ''A'', task_title = ''first'', dependencies = [''B''], estimatedEffort = ''1h'',
        agent = ''codegen''\<rparr>,
       \<lparr>task_id = ''B'', task_title = ''second'', dependencies = [''A''], estimatedEffort = ''1h'',
        agent = ''review''\<rparr>])
   \<and> execute 42 CMedium
      [\<lparr>task_id = ''A'', task_title = ''first'', dependencies = [''B''], estimatedEffort = ''1h'',
        agent = ''codegen''\<rparr>,
       \<lparr>task_id = ''B'', task_title = ''second'', dependencies = [''A''], estimatedEffort = ''1h'',
        agent = ''review''\<rparr>]
     = ([CreateComment 42 Started,
         CreateComment 42 (Failed ''Circular dependency detected in task graph'')],
        Inl (Error ''Circular dependency detected in task graph''))"
proof -
  let ?ts = "[\<lparr>task_id = ''A'', task_title = ''first'', dependencies = [''B''],
                estimatedEffort = ''1h'', agent = ''codegen''\<rparr>,
              \<lparr>task_id = ''B'', task_title = ''second'', dependencies = [''A''],
                estimatedEffort = ''1h'', agent = ''review''\<rparr>]"
  have ab: "(''A'', ''B'') \<in> depends_on ?ts" by (simp add: depends_on_def)
  have ba: "(''B'', ''A'') \<in> depends_on ?ts" by (simp add: depends_on_def)
  from ab ba have h: "(''A'', ''A'') \<in> (depends_on ?ts)\<^sup>+"
    by (rule trancl.intros(2) [OF trancl.intros(1)])
  from h cycle_aborts_execute [OF h, of 42 CMedium] show ?thesis
    by (intro conjI) simp_all
qed

end
